theory Spec2Isabelle
  imports Main "HOL-Library.Multiset"
begin

text \<open>
  A shallow embedding of the graph-algorithms engine: the disjoint-set forest
  (\<^verbatim>\<open>disjointset.py\<close>), the indexed binary-heap priority queue (\<^verbatim>\<open>intpq.py\<close>) and
  the adjacency-list graph family (\<^verbatim>\<open>graphshw.py\<close>). Mutation is explicit state passing,
  Python exceptions are values of type \<open>error\<close>, and a call that does not return is the
  value \<open>None\<close>.
\<close>

section \<open>Definitions\<close>

subsection \<open>Errors\<close>

text \<open>
  The exceptions the modelled code can raise: \<open>IndexError\<close> for a list index out of
  range, \<open>AttributeError\<close> for reading a slot that was never assigned.
\<close>

datatype error = IndexError | AttributeError

subsection \<open>DisjointIntegerSets\<close>

text \<open>
  A node of the forest holds its parent \<open>p\<close> and its \<open>rank\<close>; the forest is the list
  \<open>_nodes\<close>, indexed by element. Elements are the naturals below the length of the list.
\<close>

record node =
  p :: nat
  rank :: nat

definition makeset :: "nat \<Rightarrow> node" where
  "makeset x = \<lparr>p = x, rank = 0\<rparr>"

text \<open>The constructor: \<open>[ self.makeset(i) for i in range(n) ]\<close>.\<close>

definition init_nodes :: "nat \<Rightarrow> node list" where
  "init_nodes n = map makeset [0..<n]"

text \<open>
  \<open>findset\<close> recurses along the parents and, on the way back, stores the root as the
  parent of every node it visited. It returns the root and the updated forest. The right
  hand side of the assignment is evaluated first, so the node that is updated is read
  from the forest the recursive call returns. On a parent cycle the recursion never
  bottoms out: the value is \<open>None\<close>.
\<close>

partial_function (option) findset :: "node list \<Rightarrow> nat \<Rightarrow> (error + nat \<times> node list) option" where
  "findset nodes x =
     (if length nodes \<le> x then Some (Inl IndexError)
      else if x \<noteq> p (nodes ! x) then
        Option.bind (findset nodes (p (nodes ! x)))
          (\<lambda>res. case res of
              Inl e \<Rightarrow> Some (Inl e)
            | Inr (r, nodes1) \<Rightarrow>
                (let nodes2 = nodes1[x := (nodes1 ! x)\<lparr>p := r\<rparr>]
                 in Some (Inr (p (nodes2 ! x), nodes2))))
      else Some (Inr (p (nodes ! x), nodes)))"

declare findset.simps [code]

text \<open>
  \<open>_link\<close>: union by rank. There is no test for \<open>x = y\<close>: with equal arguments the
  \<open>else\<close> branch runs, the parent is rewritten to itself and, the two ranks being those
  of one node, the rank is incremented.
\<close>

definition link :: "node list \<Rightarrow> nat \<Rightarrow> nat \<Rightarrow> error + node list" where
  "link nodes x y =
     (if length nodes \<le> x \<or> length nodes \<le> y then Inl IndexError
      else if rank (nodes ! x) > rank (nodes ! y) then
        Inr (nodes[y := (nodes ! y)\<lparr>p := x\<rparr>])
      else
        (let nodes1 = nodes[x := (nodes ! x)\<lparr>p := y\<rparr>]
         in if rank (nodes1 ! x) = rank (nodes1 ! y)
            then Inr (nodes1[y := (nodes1 ! y)\<lparr>rank := rank (nodes1 ! y) + 1\<rparr>])
            else Inr nodes1))"

text \<open>
  \<open>union\<close> is \<open>self._link(self.findset(x), self.findset(y))\<close>: the two finds run left
  to right, the second on the forest the first has compressed.
\<close>

definition union_djs :: "node list \<Rightarrow> nat \<Rightarrow> nat \<Rightarrow> (error + node list) option" where
  "union_djs nodes x y =
     (case findset nodes x of
        None \<Rightarrow> None
      | Some (Inl e) \<Rightarrow> Some (Inl e)
      | Some (Inr (rx, nodes1)) \<Rightarrow>
          (case findset nodes1 y of
             None \<Rightarrow> None
           | Some (Inl e) \<Rightarrow> Some (Inl e)
           | Some (Inr (ry, nodes2)) \<Rightarrow> Some (link nodes2 rx ry)))"

text \<open>The representative \<open>findset\<close> returns for an element, when it returns one.\<close>

definition representative :: "node list \<Rightarrow> nat \<Rightarrow> nat option" where
  "representative nodes x =
     (case findset nodes x of Some (Inr (r, nodes1)) \<Rightarrow> Some r | _ \<Rightarrow> None)"

text \<open>
  The forests over \<open>[0,n)\<close>: the states an instance built by the constructor reaches
  through \<open>findset\<close> and \<open>union\<close> calls with arguments in range.
\<close>

inductive forest :: "nat \<Rightarrow> node list \<Rightarrow> bool" where
  forest_init: "forest n (init_nodes n)"
| forest_findset: "forest n nodes \<Longrightarrow> x < n \<Longrightarrow> findset nodes x = Some (Inr (r, nodes1))
     \<Longrightarrow> forest n nodes1"
| forest_union: "forest n nodes \<Longrightarrow> x < n \<Longrightarrow> y < n \<Longrightarrow> union_djs nodes x y = Some (Inr nodes1)
     \<Longrightarrow> forest n nodes1"

text \<open>
  \<open>rep nodes x r\<close>: following the parents from \<open>x\<close> ends at the root \<open>r\<close>. The
  structural invariant says that this holds for some root from every element.
\<close>

inductive rep :: "node list \<Rightarrow> nat \<Rightarrow> nat \<Rightarrow> bool" for nodes :: "node list" where
  rep_root: "x < length nodes \<Longrightarrow> p (nodes ! x) = x \<Longrightarrow> rep nodes x x"
| rep_step: "x < length nodes \<Longrightarrow> p (nodes ! x) \<noteq> x \<Longrightarrow> rep nodes (p (nodes ! x)) r
     \<Longrightarrow> rep nodes x r"

definition forest_inv :: "nat \<Rightarrow> node list \<Rightarrow> bool" where
  "forest_inv n nodes \<longleftrightarrow> length nodes = n \<and> (\<forall>x<n. \<exists>r. rep nodes x r)"

subsection \<open>PQInts\<close>

text \<open>
  The queue holds \<open>_minheap\<close>, the list of \<open>(element, priority)\<close> pairs in heap layout,
  and \<open>_index\<close>, which maps an element to its position in \<open>_minheap\<close> or to \<open>-1\<close>.
  Elements are naturals; positions stored in \<open>_index\<close> are Python integers, since
  \<open>-1\<close> is one of them. Priorities are any linearly ordered type.
\<close>

record 'p pq =
  minheap :: "(nat \<times> 'p) list"
  index :: "int list"

definition PQ_init :: "nat \<Rightarrow> 'p pq" where
  "PQ_init n = \<lparr>minheap = [], index = replicate n (- 1)\<rparr>"

definition size_pq :: "'p pq \<Rightarrow> nat" where
  "size_pq q = length (minheap q)"

definition isEmpty :: "'p pq \<Rightarrow> bool" where
  "isEmpty q \<longleftrightarrow> length (minheap q) = 0"

text \<open>
  Python list indexing with an integer: a negative index counts from the end, anything
  outside raises \<open>IndexError\<close>.
\<close>

definition py_get :: "'a list \<Rightarrow> int \<Rightarrow> error + 'a" where
  "py_get xs i =
     (if 0 \<le> i \<and> i < int (length xs) then Inr (xs ! nat i)
      else if i < 0 \<and> - int (length xs) \<le> i then Inr (xs ! nat (int (length xs) + i))
      else Inl IndexError)"

definition left :: "nat \<Rightarrow> nat" where
  "left i = 2 * i + 1"

definition right :: "nat \<Rightarrow> nat" where
  "right i = 2 * i + 2"

text \<open>\<open>_parent\<close> is \<open>(i-1)//2\<close>, a floor division: the parent of position 0 is \<open>-1\<close>.\<close>

definition parent :: "nat \<Rightarrow> int" where
  "parent i = (int i - 1) div 2"

text \<open>
  \<open>_percolate_up\<close>. The loop moves the parent entry down while the parent's priority is
  greater than the priority of \<open>current\<close>, recording the new position of each entry it
  moves; then it stores \<open>current\<close>. Writing \<open>_index\<close> at an element outside its range
  raises \<open>IndexError\<close>. Positions stay below the length of the heap once the first read
  has succeeded.
\<close>

function percolate_up_from :: "nat \<times> 'p::linorder \<Rightarrow> nat \<Rightarrow> 'p pq \<Rightarrow> error + 'p pq" where
  "percolate_up_from current position q =
     (if parent position \<ge> 0 \<and> snd (minheap q ! nat (parent position)) > snd current then
        (let h1 = (minheap q)[position := minheap q ! nat (parent position)]
         in if length (index q) \<le> fst (h1 ! position) then Inl IndexError
            else percolate_up_from current (nat (parent position))
                   \<lparr>minheap = h1, index = (index q)[fst (h1 ! position) := int position]\<rparr>)
      else
        (let h1 = (minheap q)[position := current]
         in if length (index q) \<le> fst (h1 ! position) then Inl IndexError
            else Inr \<lparr>minheap = h1, index = (index q)[fst (h1 ! position) := int position]\<rparr>))"
  by pat_completeness auto
termination
  by (relation "measure (\<lambda>(current, position, q). position)") (auto simp: parent_def)

declare percolate_up_from.simps [simp del]

definition percolate_up :: "'p::linorder pq \<Rightarrow> nat \<Rightarrow> error + 'p pq" where
  "percolate_up q position =
     (if length (minheap q) \<le> position then Inl IndexError
      else percolate_up_from (minheap q ! position) position q)"

text \<open>
  \<open>_percolate_down\<close>. The loop picks the child with the smaller priority (the left one
  on a tie) and moves it up while its priority is less than the priority of \<open>current\<close>.
\<close>

definition minChild :: "(nat \<times> 'p::linorder) list \<Rightarrow> nat \<Rightarrow> nat" where
  "minChild h position =
     (if left position + 1 < length h \<and> snd (h ! (left position + 1)) < snd (h ! left position)
      then left position + 1 else left position)"

function percolate_down_from :: "nat \<times> 'p::linorder \<Rightarrow> nat \<Rightarrow> 'p pq \<Rightarrow> error + 'p pq" where
  "percolate_down_from current position q =
     (if left position < length (minheap q)
         \<and> snd (minheap q ! minChild (minheap q) position) < snd current then
        (let h1 = (minheap q)[position := minheap q ! minChild (minheap q) position]
         in if length (index q) \<le> fst (h1 ! position) then Inl IndexError
            else percolate_down_from current (minChild (minheap q) position)
                   \<lparr>minheap = h1, index = (index q)[fst (h1 ! position) := int position]\<rparr>)
      else
        (let h1 = (minheap q)[position := current]
         in if length (index q) \<le> fst (h1 ! position) then Inl IndexError
            else Inr \<lparr>minheap = h1, index = (index q)[fst (h1 ! position) := int position]\<rparr>))"
  by pat_completeness auto
termination
  by (relation "measure (\<lambda>(current, position, q). length (minheap q) - position)")
     (auto simp: minChild_def left_def)

declare percolate_down_from.simps [simp del]

definition percolate_down :: "'p::linorder pq \<Rightarrow> nat \<Rightarrow> error + 'p pq" where
  "percolate_down q position =
     (if length (minheap q) \<le> position then Inl IndexError
      else percolate_down_from (minheap q ! position) position q)"

text \<open>\<open>_percolate_down_no_index\<close>: the same loop on the heap alone.\<close>

function percolate_down_no_index_from ::
  "nat \<times> 'p::linorder \<Rightarrow> nat \<Rightarrow> (nat \<times> 'p) list \<Rightarrow> (nat \<times> 'p) list" where
  "percolate_down_no_index_from current position h =
     (if left position < length h \<and> snd (h ! minChild h position) < snd current then
        percolate_down_no_index_from current (minChild h position)
          (h[position := h ! minChild h position])
      else h[position := current])"
  by pat_completeness auto
termination
  by (relation "measure (\<lambda>(current, position, h). length h - position)")
     (auto simp: minChild_def left_def)

declare percolate_down_no_index_from.simps [simp del]

definition percolate_down_no_index :: "(nat \<times> 'p::linorder) list \<Rightarrow> nat \<Rightarrow> error + (nat \<times> 'p) list" where
  "percolate_down_no_index h position =
     (if length h \<le> position then Inl IndexError
      else Inr (percolate_down_no_index_from (h ! position) position h))"

text \<open>
  \<open>_heapify\<close>: sift down the positions \<open>len // 2 - 1\<close>, ..., \<open>0\<close>, then write the
  position of every entry into \<open>_index\<close>, front to back, so that of two entries with the
  same element the later one wins.
\<close>

fun heapify_sift :: "(nat \<times> 'p::linorder) list \<Rightarrow> nat list \<Rightarrow> error + (nat \<times> 'p) list" where
  "heapify_sift h [] = Inr h"
| "heapify_sift h (i # is) =
     (case percolate_down_no_index h i of Inl e \<Rightarrow> Inl e | Inr h1 \<Rightarrow> heapify_sift h1 is)"

fun heapify_index :: "int list \<Rightarrow> (nat \<times> (nat \<times> 'p)) list \<Rightarrow> error + int list" where
  "heapify_index idx [] = Inr idx"
| "heapify_index idx ((i, e) # rest) =
     (if length idx \<le> fst e then Inl IndexError
      else heapify_index (idx[fst e := int i]) rest)"

definition heapify :: "'p::linorder pq \<Rightarrow> error + 'p pq" where
  "heapify q =
     (case heapify_sift (minheap q) (rev [0..<length (minheap q) div 2]) of
        Inl e \<Rightarrow> Inl e
      | Inr h1 \<Rightarrow>
          (case heapify_index (index q) (enumerate 0 h1) of
             Inl e \<Rightarrow> Inl e
           | Inr idx1 \<Rightarrow> Inr \<lparr>minheap = h1, index = idx1\<rparr>))"

text \<open>
  \<open>insert\<close> returns \<open>False\<close> when the element is present, otherwise appends the pair and
  sifts it up.
\<close>

definition insert_pq :: "'p::linorder pq \<Rightarrow> nat \<Rightarrow> 'p \<Rightarrow> error + bool \<times> 'p pq" where
  "insert_pq q element val =
     (if length (index q) \<le> element then Inl IndexError
      else if index q ! element \<ge> 0 then Inr (False, q)
      else case percolate_up (q\<lparr>minheap := minheap q @ [(element, val)]\<rparr>) (length (minheap q)) of
             Inl e \<Rightarrow> Inl e
           | Inr q1 \<Rightarrow> Inr (True, q1))"

text \<open>
  \<open>insertAll\<close>. With at least as many pairs as heap entries, every pair whose element
  has a negative \<open>_index\<close> entry is appended, \<open>_index\<close> not being written in that loop,
  and \<open>_heapify\<close> runs once at the end. With fewer pairs, \<open>insert\<close> is called for each.
\<close>

fun append_absent :: "'p pq \<Rightarrow> (nat \<times> 'p) list \<Rightarrow> error + 'p pq" where
  "append_absent q [] = Inr q"
| "append_absent q (pr # prs) =
     (if length (index q) \<le> fst pr then Inl IndexError
      else if index q ! fst pr < 0
           then append_absent (q\<lparr>minheap := minheap q @ [pr]\<rparr>) prs
           else append_absent q prs)"

fun insert_each :: "'p::linorder pq \<Rightarrow> (nat \<times> 'p) list \<Rightarrow> error + 'p pq" where
  "insert_each q [] = Inr q"
| "insert_each q ((el, val) # prs) =
     (case insert_pq q el val of Inl e \<Rightarrow> Inl e | Inr (b, q1) \<Rightarrow> insert_each q1 prs)"

definition insertAll :: "'p::linorder pq \<Rightarrow> (nat \<times> 'p) list \<Rightarrow> error + 'p pq" where
  "insertAll q pairs =
     (if length pairs \<ge> length (minheap q) then
        (case append_absent q pairs of Inl e \<Rightarrow> Inl e | Inr q1 \<Rightarrow> heapify q1)
      else insert_each q pairs)"

definition peekMin :: "'p pq \<Rightarrow> error + nat" where
  "peekMin q = (case py_get (minheap q) 0 of Inl e \<Rightarrow> Inl e | Inr en \<Rightarrow> Inr (fst en))"

text \<open>
  \<open>extractMin\<close>: the element at the root, \<open>pop()\<close> of the last entry, which replaces
  the root and is sifted down when the heap is not empty after the pop; last, the index
  entry of the extracted element is set to \<open>-1\<close>.
\<close>

definition extractMin :: "'p::linorder pq \<Rightarrow> error + nat \<times> 'p pq" where
  "extractMin q =
     (if minheap q = [] then Inl IndexError
      else
        (let minElement = fst (minheap q ! 0);
             oldLast = last (minheap q);
             h1 = butlast (minheap q)
         in case (if length h1 > 0
                  then percolate_down \<lparr>minheap = h1[0 := oldLast], index = index q\<rparr> 0
                  else Inr \<lparr>minheap = h1, index = index q\<rparr>) of
              Inl e \<Rightarrow> Inl e
            | Inr q1 \<Rightarrow>
                if length (index q1) \<le> minElement then Inl IndexError
                else Inr (minElement, q1\<lparr>index := (index q1)[minElement := - 1]\<rparr>)))"

definition contains :: "'p pq \<Rightarrow> nat \<Rightarrow> error + bool" where
  "contains q element =
     (if length (index q) \<le> element then Inl IndexError else Inr (index q ! element \<ge> 0))"

text \<open>
  \<open>getPriority\<close> is \<open>self._minheap[self._index[element]][1]\<close>, with no test that the
  element is present.
\<close>

definition getPriority :: "'p pq \<Rightarrow> nat \<Rightarrow> error + 'p" where
  "getPriority q element =
     (if length (index q) \<le> element then Inl IndexError
      else case py_get (minheap q) (index q ! element) of
             Inl e \<Rightarrow> Inl e
           | Inr en \<Rightarrow> Inr (snd en))"

definition changePriority :: "'p::linorder pq \<Rightarrow> nat \<Rightarrow> 'p \<Rightarrow> error + bool \<times> 'p pq" where
  "changePriority q element val =
     (case contains q element of
        Inl e \<Rightarrow> Inl e
      | Inr False \<Rightarrow> Inr (False, q)
      | Inr True \<Rightarrow>
          (let position = nat (index q ! element)
           in if length (minheap q) \<le> position then Inl IndexError
              else if snd (minheap q ! position) > val then
                (case percolate_up (q\<lparr>minheap := (minheap q)[position := (element, val)]\<rparr>) position of
                   Inl e \<Rightarrow> Inl e
                 | Inr q1 \<Rightarrow> Inr (True, q1))
              else if snd (minheap q ! position) < val then
                (case percolate_down (q\<lparr>minheap := (minheap q)[position := (element, val)]\<rparr>) position of
                   Inl e \<Rightarrow> Inl e
                 | Inr q1 \<Rightarrow> Inr (True, q1))
              else Inr (True, q)))"

text \<open>
  The states of a queue over \<open>[0,n)\<close>: those the constructor and the four mutating
  methods reach, with elements in range and \<open>extractMin\<close> on a non-empty queue only.
\<close>

inductive pq_reachable :: "nat \<Rightarrow> 'p::linorder pq \<Rightarrow> bool" for n :: nat where
  reach_init: "pq_reachable n (PQ_init n)"
| reach_insert: "pq_reachable n q \<Longrightarrow> element < n \<Longrightarrow> insert_pq q element val = Inr (b, q1)
     \<Longrightarrow> pq_reachable n q1"
| reach_insertAll: "pq_reachable n q \<Longrightarrow> \<forall>pr\<in>set pairs. fst pr < n \<Longrightarrow> insertAll q pairs = Inr q1
     \<Longrightarrow> pq_reachable n q1"
| reach_extractMin: "pq_reachable n q \<Longrightarrow> minheap q \<noteq> [] \<Longrightarrow> extractMin q = Inr (element, q1)
     \<Longrightarrow> pq_reachable n q1"
| reach_changePriority: "pq_reachable n q \<Longrightarrow> element < n \<Longrightarrow> changePriority q element val = Inr (b, q1)
     \<Longrightarrow> pq_reachable n q1"

text \<open>
  The shape of \<open>_index\<close> every reachable queue has: one entry per element, each a
  position or \<open>-1\<close>.
\<close>

definition index_wf :: "nat \<Rightarrow> 'p pq \<Rightarrow> bool" where
  "index_wf n q \<longleftrightarrow> length (index q) = n \<and> (\<forall>i\<in>set (index q). - 1 \<le> i)"

subsection \<open>Adjacency lists\<close>

text \<open>
  \<open>_AdjacencyList\<close> is a singly linked list with \<open>_first\<close>, \<open>_last\<close> and a counter
  \<open>_size\<close>. The chain of nodes from \<open>_first\<close> to \<open>_last\<close> is the list \<open>al_items\<close>;
  \<open>_add\<close> links a node behind \<open>_last\<close> and increments the counter. An entry of a plain
  list is the target vertex, an entry of a \<open>_WeightedAdjacencyList\<close> is the pair of the
  target vertex and the weight.
\<close>

record 'a adjacency_list =
  al_items :: "'a list"
  al_size :: nat

definition AdjacencyList_init :: "'a adjacency_list" where
  "AdjacencyList_init = \<lparr>al_items = [], al_size = 0\<rparr>"

definition al_add :: "'a adjacency_list \<Rightarrow> 'a \<Rightarrow> 'a adjacency_list" where
  "al_add al x = al\<lparr>al_items := al_items al @ [x], al_size := al_size al + 1\<rparr>"

text \<open>
  The two iterators: \<open>_AdjListIter\<close> yields the target vertices (of a weighted list
  too), \<open>_AdjListIterWithWeights\<close> yields the pairs.
\<close>

definition iter_plain :: "nat adjacency_list \<Rightarrow> nat list" where
  "iter_plain al = al_items al"

definition iter_targets :: "(nat \<times> 'w) adjacency_list \<Rightarrow> nat list" where
  "iter_targets al = map fst (al_items al)"

definition iter_weighted :: "(nat \<times> 'w) adjacency_list \<Rightarrow> (nat \<times> 'w) list" where
  "iter_weighted al = al_items al"

subsection \<open>Graph and WeightedGraph\<close>

text \<open>
  An undirected graph is its list \<open>_adj\<close> of adjacency lists. \<open>addEdge\<close> appends to
  the list of \<open>a\<close> and then to the list of \<open>b\<close>; an endpoint out of range raises
  \<open>IndexError\<close>. The constructor calls \<open>addEdge\<close> for every pair of \<open>edges\<close>, in order.
\<close>

definition Graph_addEdge ::
  "nat adjacency_list list \<Rightarrow> nat \<Rightarrow> nat \<Rightarrow> error + nat adjacency_list list" where
  "Graph_addEdge adj a b =
     (if length adj \<le> a then Inl IndexError
      else let adj1 = adj[a := al_add (adj ! a) b]
           in if length adj1 \<le> b then Inl IndexError
              else Inr (adj1[b := al_add (adj1 ! b) a]))"

fun Graph_addEdges ::
  "nat adjacency_list list \<Rightarrow> (nat \<times> nat) list \<Rightarrow> error + nat adjacency_list list" where
  "Graph_addEdges adj [] = Inr adj"
| "Graph_addEdges adj ((u, v) # es) =
     (case Graph_addEdge adj u v of Inl e \<Rightarrow> Inl e | Inr adj1 \<Rightarrow> Graph_addEdges adj1 es)"

definition Graph_init :: "nat \<Rightarrow> (nat \<times> nat) list \<Rightarrow> error + nat adjacency_list list" where
  "Graph_init v edges = Graph_addEdges (replicate v AdjacencyList_init) edges"

definition numVertices :: "'a adjacency_list list \<Rightarrow> nat" where
  "numVertices adj = length adj"

definition Graph_degree :: "'a adjacency_list list \<Rightarrow> nat \<Rightarrow> error + nat" where
  "Graph_degree adj vertex =
     (if length adj \<le> vertex then Inl IndexError else Inr (al_size (adj ! vertex)))"

text \<open>
  \<open>Graph.getEdgeList\<close>:
  \<^verbatim>\<open>[ (u,v) for u, uList in enumerate(self._adj) for v in uList if v > u ]\<close>.
  The iterator of \<open>uList\<close> is a parameter, since \<open>WeightedGraph\<close> inherits the method and
  iterates its weighted lists with it.
\<close>

definition getEdgeList_with :: "('a adjacency_list \<Rightarrow> nat list) \<Rightarrow> 'a adjacency_list list \<Rightarrow> (nat \<times> nat) list" where
  "getEdgeList_with iter adj =
     concat (map (\<lambda>(u, uList). map (\<lambda>v. (u, v)) (filter (\<lambda>v. v > u) (iter uList)))
                 (enumerate 0 adj))"

definition Graph_getEdgeList :: "nat adjacency_list list \<Rightarrow> (nat \<times> nat) list" where
  "Graph_getEdgeList adj = getEdgeList_with iter_plain adj"

definition WeightedGraph_addEdge ::
  "(nat \<times> 'w) adjacency_list list \<Rightarrow> nat \<Rightarrow> nat \<Rightarrow> 'w \<Rightarrow> error + (nat \<times> 'w) adjacency_list list" where
  "WeightedGraph_addEdge adj a b w =
     (if length adj \<le> a then Inl IndexError
      else let adj1 = adj[a := al_add (adj ! a) (b, w)]
           in if length adj1 \<le> b then Inl IndexError
              else Inr (adj1[b := al_add (adj1 ! b) (a, w)]))"

text \<open>
  The constructor of \<open>WeightedGraph\<close> reads \<open>weights[i]\<close> for the \<open>i\<close>-th edge; a list
  of weights shorter than the list of edges raises \<open>IndexError\<close>.
\<close>

fun WeightedGraph_addEdges ::
  "(nat \<times> 'w) adjacency_list list \<Rightarrow> 'w list \<Rightarrow> nat \<Rightarrow> (nat \<times> nat) list
     \<Rightarrow> error + (nat \<times> 'w) adjacency_list list" where
  "WeightedGraph_addEdges adj weights i [] = Inr adj"
| "WeightedGraph_addEdges adj weights i ((u, v) # es) =
     (if length weights \<le> i then Inl IndexError
      else case WeightedGraph_addEdge adj u v (weights ! i) of
             Inl e \<Rightarrow> Inl e
           | Inr adj1 \<Rightarrow> WeightedGraph_addEdges adj1 weights (Suc i) es)"

definition WeightedGraph_init ::
  "nat \<Rightarrow> (nat \<times> nat) list \<Rightarrow> 'w list \<Rightarrow> error + (nat \<times> 'w) adjacency_list list" where
  "WeightedGraph_init v edges weights =
     WeightedGraph_addEdges (replicate v AdjacencyList_init) weights 0 edges"

text \<open>
  \<open>WeightedGraph.getEdgeList(withWeights)\<close>: without weights the inherited method,
  with weights
  \<^verbatim>\<open>[ ((u,v),w) for u, uList in enumerate(self._adj) for v, w in uList.__iter__(True) if v > u ]\<close>.
  The two cases return lists of different types and are two functions here.
\<close>

definition WeightedGraph_getEdgeList :: "(nat \<times> 'w) adjacency_list list \<Rightarrow> (nat \<times> nat) list" where
  "WeightedGraph_getEdgeList adj = getEdgeList_with iter_targets adj"

definition WeightedGraph_getEdgeList_withWeights ::
  "(nat \<times> 'w) adjacency_list list \<Rightarrow> ((nat \<times> nat) \<times> 'w) list" where
  "WeightedGraph_getEdgeList_withWeights adj =
     concat (map (\<lambda>(u, uList). map (\<lambda>(v, w). ((u, v), w))
                                   (filter (\<lambda>(v, w). v > u) (iter_weighted uList)))
                 (enumerate 0 adj))"

subsection \<open>Digraph and WeightedDigraph\<close>

text \<open>
  A directed graph has the slot \<open>_inDegree\<close> besides \<open>_adj\<close>. A slot holds a value
  only once it has been assigned: \<open>Digraph.__init__\<close> assigns both slots,
  \<open>WeightedDigraph.__init__\<close> assigns \<open>_adj\<close> only and calls no other constructor.
  Reading an unassigned slot raises \<open>AttributeError\<close>.
\<close>

record 'a digraph =
  dg_adj :: "'a adjacency_list list"
  dg_inDegree :: "nat list option"

definition Digraph_addEdge :: "nat digraph \<Rightarrow> nat \<Rightarrow> nat \<Rightarrow> error + nat digraph" where
  "Digraph_addEdge g a b =
     (if length (dg_adj g) \<le> a then Inl IndexError
      else let adj1 = (dg_adj g)[a := al_add (dg_adj g ! a) b]
           in case dg_inDegree g of
                None \<Rightarrow> Inl AttributeError
              | Some deg \<Rightarrow>
                  if length deg \<le> b then Inl IndexError
                  else Inr \<lparr>dg_adj = adj1, dg_inDegree = Some (deg[b := deg ! b + 1])\<rparr>)"

fun Digraph_addEdges :: "nat digraph \<Rightarrow> (nat \<times> nat) list \<Rightarrow> error + nat digraph" where
  "Digraph_addEdges g [] = Inr g"
| "Digraph_addEdges g ((u, v) # es) =
     (case Digraph_addEdge g u v of Inl e \<Rightarrow> Inl e | Inr g1 \<Rightarrow> Digraph_addEdges g1 es)"

definition Digraph_init :: "nat \<Rightarrow> (nat \<times> nat) list \<Rightarrow> error + nat digraph" where
  "Digraph_init v edges =
     Digraph_addEdges \<lparr>dg_adj = replicate v AdjacencyList_init,
                       dg_inDegree = Some (replicate v 0)\<rparr> edges"

text \<open>
  \<open>outDegree\<close> is \<open>Graph.degree\<close>, \<open>inDegree\<close> reads \<open>self._inDegree[vertex]\<close>, and
  \<open>Digraph.degree\<close> adds them, the out-degree first. \<open>WeightedDigraph\<close> inherits the
  first two and its \<open>degree\<close> calls \<open>Digraph.degree\<close>.
\<close>

definition outDegree :: "'a digraph \<Rightarrow> nat \<Rightarrow> error + nat" where
  "outDegree g vertex = Graph_degree (dg_adj g) vertex"

definition inDegree :: "'a digraph \<Rightarrow> nat \<Rightarrow> error + nat" where
  "inDegree g vertex =
     (case dg_inDegree g of
        None \<Rightarrow> Inl AttributeError
      | Some deg \<Rightarrow> if length deg \<le> vertex then Inl IndexError else Inr (deg ! vertex))"

definition Digraph_degree :: "'a digraph \<Rightarrow> nat \<Rightarrow> error + nat" where
  "Digraph_degree g vertex =
     (case outDegree g vertex of
        Inl e \<Rightarrow> Inl e
      | Inr od \<Rightarrow> (case inDegree g vertex of Inl e \<Rightarrow> Inl e | Inr ind \<Rightarrow> Inr (od + ind)))"

definition WeightedDigraph_degree :: "(nat \<times> 'w) digraph \<Rightarrow> nat \<Rightarrow> error + nat" where
  "WeightedDigraph_degree g vertex = Digraph_degree g vertex"

text \<open>
  \<open>Digraph.getEdgeList\<close> has no filter:
  \<^verbatim>\<open>[ (u,v) for u, uList in enumerate(self._adj) for v in uList ]\<close>.
\<close>

definition arcList_with :: "('a adjacency_list \<Rightarrow> nat list) \<Rightarrow> 'a adjacency_list list \<Rightarrow> (nat \<times> nat) list" where
  "arcList_with iter adj =
     concat (map (\<lambda>(u, uList). map (\<lambda>v. (u, v)) (iter uList)) (enumerate 0 adj))"

definition Digraph_getEdgeList :: "nat digraph \<Rightarrow> (nat \<times> nat) list" where
  "Digraph_getEdgeList g = arcList_with iter_plain (dg_adj g)"

text \<open>
  \<open>WeightedDigraph.addEdge\<close> appends to the list of the source and does nothing else.
\<close>

definition WeightedDigraph_addEdge ::
  "(nat \<times> 'w) digraph \<Rightarrow> nat \<Rightarrow> nat \<Rightarrow> 'w \<Rightarrow> error + (nat \<times> 'w) digraph" where
  "WeightedDigraph_addEdge g a b w =
     (if length (dg_adj g) \<le> a then Inl IndexError
      else Inr (g\<lparr>dg_adj := (dg_adj g)[a := al_add (dg_adj g ! a) (b, w)]\<rparr>))"

fun WeightedDigraph_addEdges ::
  "(nat \<times> 'w) digraph \<Rightarrow> 'w list \<Rightarrow> nat \<Rightarrow> (nat \<times> nat) list \<Rightarrow> error + (nat \<times> 'w) digraph" where
  "WeightedDigraph_addEdges g weights i [] = Inr g"
| "WeightedDigraph_addEdges g weights i ((u, v) # es) =
     (if length weights \<le> i then Inl IndexError
      else case WeightedDigraph_addEdge g u v (weights ! i) of
             Inl e \<Rightarrow> Inl e
           | Inr g1 \<Rightarrow> WeightedDigraph_addEdges g1 weights (Suc i) es)"

definition WeightedDigraph_init ::
  "nat \<Rightarrow> (nat \<times> nat) list \<Rightarrow> 'w list \<Rightarrow> error + (nat \<times> 'w) digraph" where
  "WeightedDigraph_init v edges weights =
     WeightedDigraph_addEdges \<lparr>dg_adj = replicate v AdjacencyList_init, dg_inDegree = None\<rparr>
       weights 0 edges"

text \<open>
  \<open>WeightedDigraph.getEdgeList\<close>: without weights \<open>super().getEdgeList()\<close>, which by
  the method resolution order (\<open>WeightedDigraph\<close>, \<open>WeightedGraph\<close>, \<open>Digraph\<close>, \<open>Graph\<close>)
  is \<open>WeightedGraph.getEdgeList\<close> and from there \<open>Digraph.getEdgeList\<close>; with weights
  its own comprehension, without a filter.
\<close>

definition WeightedDigraph_getEdgeList :: "(nat \<times> 'w) digraph \<Rightarrow> (nat \<times> nat) list" where
  "WeightedDigraph_getEdgeList g = arcList_with iter_targets (dg_adj g)"

definition WeightedDigraph_getEdgeList_withWeights ::
  "(nat \<times> 'w) digraph \<Rightarrow> ((nat \<times> nat) \<times> 'w) list" where
  "WeightedDigraph_getEdgeList_withWeights g =
     concat (map (\<lambda>(u, uList). map (\<lambda>(v, w). ((u, v), w)) (iter_weighted uList))
                 (enumerate 0 (dg_adj g)))"

subsection \<open>Edges as the edge lists report them\<close>

text \<open>
  An undirected edge is reported with its smaller endpoint first; an edge is proper when
  its endpoints differ. The same for an edge paired with its weight.
\<close>

definition unordered :: "nat \<times> nat \<Rightarrow> nat \<times> nat" where
  "unordered e = (min (fst e) (snd e), max (fst e) (snd e))"

definition proper :: "nat \<times> nat \<Rightarrow> bool" where
  "proper e \<longleftrightarrow> fst e \<noteq> snd e"

definition unordered_w :: "(nat \<times> nat) \<times> 'w \<Rightarrow> (nat \<times> nat) \<times> 'w" where
  "unordered_w ew = (unordered (fst ew), snd ew)"

definition proper_w :: "(nat \<times> nat) \<times> 'w \<Rightarrow> bool" where
  "proper_w ew \<longleftrightarrow> proper (fst ew)"

text \<open>
  The counters of a directed graph agree with \<open>out\<close> and \<open>inn\<close>: the size of every
  adjacency list and every entry of \<open>_inDegree\<close>.
\<close>

definition degrees_ok :: "nat digraph \<Rightarrow> (nat \<Rightarrow> nat) \<Rightarrow> (nat \<Rightarrow> nat) \<Rightarrow> bool" where
  "degrees_ok g out inn \<longleftrightarrow>
     (\<exists>deg. dg_inDegree g = Some deg \<and> length deg = length (dg_adj g)
        \<and> (\<forall>v < length (dg_adj g). al_size (dg_adj g ! v) = out v \<and> deg ! v = inn v))"

section \<open>The disjoint-set forest: representatives, find and union\<close>

lemma map_p_rank_update: "map p (xs[i := (xs ! i)\<lparr>rank := k\<rparr>]) = map p xs"
  by (cases "i < length xs") (simp_all add: map_update list_update_same_conv list_update_beyond)

lemma map_rank_p_update: "map rank (xs[i := (xs ! i)\<lparr>p := k\<rparr>]) = map rank xs"
  by (cases "i < length xs") (simp_all add: map_update list_update_same_conv list_update_beyond)

lemma rep_det: "rep nodes x r \<Longrightarrow> rep nodes x r' \<Longrightarrow> r = r'"
proof (induction arbitrary: r' rule: rep.induct)
  case (rep_root x)
  from rep_root.prems rep_root.hyps show ?case by (cases rule: rep.cases) auto
next
  case (rep_step x r)
  from rep_step.prems rep_step.hyps(1,2) have "rep nodes (p (nodes ! x)) r'"
    by (cases rule: rep.cases) auto
  then show ?case by (rule rep_step.IH)
qed

lemma rep_is_root: "rep nodes x r \<Longrightarrow> r < length nodes \<and> p (nodes ! r) = r"
  by (induction rule: rep.induct) auto

lemma rep_in_range: "rep nodes x r \<Longrightarrow> x < length nodes"
  by (cases rule: rep.cases) auto

lemma rep_of_root: "rep nodes x r \<Longrightarrow> rep nodes r r"
  using rep_is_root rep_root by blast

lemma rep_same_parents:
  assumes eq: "map p nodes1 = map p nodes"
  shows "rep nodes z r \<Longrightarrow> rep nodes1 z r"
proof (induction rule: rep.induct)
  case (rep_root x)
  from eq have len: "length nodes1 = length nodes" by (metis length_map)
  with rep_root.hyps eq have "p (nodes1 ! x) = x" by (metis nth_map)
  with len rep_root.hyps show ?case by (simp add: rep.rep_root)
next
  case (rep_step x r)
  from eq have len: "length nodes1 = length nodes" by (metis length_map)
  with rep_step.hyps eq have px: "p (nodes1 ! x) = p (nodes ! x)" by (metis nth_map)
  from rep_step.IH px len rep_step.hyps show ?case
    by (simp add: rep.rep_step)
qed

lemma rep_compress:
  assumes xr: "rep nodes x r"
  shows "rep nodes z r' \<Longrightarrow> rep (nodes[x := (nodes ! x)\<lparr>p := r\<rparr>]) z r'"
proof (induction rule: rep.induct)
  case (rep_root z)
  show ?case
  proof (cases "z = x")
    case True
    have "rep nodes x x" using rep_root.hyps True by (simp add: rep.rep_root)
    with xr have "r = x" by (rule rep_det)
    with True rep_root.hyps show ?thesis by (simp add: rep.rep_root)
  next
    case False
    with rep_root.hyps show ?thesis by (simp add: rep.rep_root)
  qed
next
  case (rep_step z r')
  let ?ns = "nodes[x := (nodes ! x)\<lparr>p := r\<rparr>]"
  show ?case
  proof (cases "z = x")
    case True
    have "rep nodes x r'" using rep_step.hyps True by (simp add: rep.rep_step)
    with xr have rr: "r = r'" by (rule rep_det)
    have root: "r < length nodes \<and> p (nodes ! r) = r" using xr by (rule rep_is_root)
    with rep_step.hyps True have ne: "r \<noteq> x" by auto
    with root have "rep ?ns r r" by (simp add: rep.rep_root)
    moreover have "p (?ns ! x) = r" using rep_step.hyps True by simp
    ultimately have "rep ?ns x r" using ne rep_step.hyps True
      by (auto intro: rep.rep_step)
    with True rr show ?thesis by simp
  next
    case False
    then have "?ns ! z = nodes ! z" by simp
    with rep_step.IH rep_step.hyps show ?thesis
      by (auto intro: rep.rep_step)
  qed
qed

lemma findset_rep:
  "rep nodes x r \<Longrightarrow>
   \<exists>nodes1. findset nodes x = Some (Inr (r, nodes1)) \<and> map rank nodes1 = map rank nodes
     \<and> (\<forall>z r'. rep nodes z r' \<longrightarrow> rep nodes1 z r')"
proof (induction rule: rep.induct)
  case (rep_root x)
  then have "findset nodes x = Some (Inr (x, nodes))"
    by (subst findset.simps) simp
  then show ?case by simp
next
  case (rep_step x r)
  from rep_step.IH obtain nodes1 where
    f: "findset nodes (p (nodes ! x)) = Some (Inr (r, nodes1))" and
    rk: "map rank nodes1 = map rank nodes" and
    pr: "\<forall>z r'. rep nodes z r' \<longrightarrow> rep nodes1 z r'"
    by blast
  let ?ns = "nodes1[x := (nodes1 ! x)\<lparr>p := r\<rparr>]"
  from rk have len: "length nodes1 = length nodes" by (metis length_map)
  have "rep nodes x r" using rep_step.hyps by (rule rep.rep_step)
  with pr have xr: "rep nodes1 x r" by blast
  have res: "findset nodes x = Some (Inr (r, ?ns))"
    using rep_step.hyps(1,2) f len by (subst findset.simps) (simp add: Let_def)
  have "map rank ?ns = map rank nodes1"
    by (rule map_rank_p_update)
  with rk have "map rank ?ns = map rank nodes" by simp
  moreover have "\<forall>z r'. rep nodes z r' \<longrightarrow> rep ?ns z r'"
    using pr rep_compress[OF xr] by blast
  ultimately show ?case using res by blast
qed

lemma rep_link:
  assumes a: "rep nodes a a" and b: "rep nodes b b" and ne: "a \<noteq> b"
  shows "rep nodes z r \<Longrightarrow> rep (nodes[a := (nodes ! a)\<lparr>p := b\<rparr>]) z (if r = a then b else r)"
proof (induction rule: rep.induct)
  case (rep_root z)
  let ?ns = "nodes[a := (nodes ! a)\<lparr>p := b\<rparr>]"
  have broot: "b < length nodes \<and> p (nodes ! b) = b" using b by (rule rep_is_root)
  with ne have bb: "rep ?ns b b" by (simp add: rep.rep_root)
  show ?case
  proof (cases "z = a")
    case True
    with rep_root.hyps ne bb have "rep ?ns a b" by (auto intro: rep.rep_step)
    with True show ?thesis by simp
  next
    case False
    with rep_root.hyps show ?thesis by (simp add: rep.rep_root)
  qed
next
  case (rep_step z r)
  let ?ns = "nodes[a := (nodes ! a)\<lparr>p := b\<rparr>]"
  have "p (nodes ! a) = a" using a rep_is_root by blast
  with rep_step.hyps have "z \<noteq> a" by auto
  then have "?ns ! z = nodes ! z" by simp
  with rep_step.IH rep_step.hyps show ?case
    by (auto intro: rep.rep_step)
qed


lemma forest_inv_init: "forest_inv n (init_nodes n)"
proof -
  have "rep (init_nodes n) x x" if "x < n" for x
    using that by (intro rep_root) (simp_all add: init_nodes_def makeset_def)
  then show ?thesis by (auto simp: forest_inv_def init_nodes_def)
qed

lemma link_roots:
  assumes inv: "forest_inv n nodes" and a: "rep nodes a a" and b: "rep nodes b b"
  shows "\<exists>nodes1. link nodes a b = Inr nodes1 \<and> forest_inv n nodes1
     \<and> (\<forall>z r. rep nodes z r \<longrightarrow>
           rep nodes1 z (if r = a \<or> r = b
                         then (if rank (nodes ! a) > rank (nodes ! b) then a else b) else r))
     \<and> (a = b \<longrightarrow> map p nodes1 = map p nodes
            \<and> map rank nodes1 = (map rank nodes)[a := rank (nodes ! a) + 1])"
proof -
  from inv have len: "length nodes = n" by (simp add: forest_inv_def)
  from a b have ra: "a < length nodes" "p (nodes ! a) = a" and rb: "b < length nodes" "p (nodes ! b) = b"
    using rep_is_root by blast+
  have invI: "forest_inv n ns" if l: "length ns = n" and r: "\<And>z r. rep nodes z r \<Longrightarrow> \<exists>r'. rep ns z r'" for ns
    using inv l r unfolding forest_inv_def by blast
  show ?thesis
  proof (cases "a = b")
    case True
    let ?ns1 = "nodes[a := (nodes ! a)\<lparr>p := b\<rparr>]"
    let ?ns2 = "?ns1[b := (?ns1 ! b)\<lparr>rank := rank (?ns1 ! b) + 1\<rparr>]"
    have l: "link nodes a b = Inr ?ns2" using True ra by (simp add: link_def Let_def)
    have mp: "map p ?ns2 = map p nodes"
      using True ra by (simp add: map_update list_update_same_conv)
    have mr: "map rank ?ns2 = (map rank nodes)[a := rank (nodes ! a) + 1]"
      using True ra by (simp add: map_update)
    have pres: "rep ?ns2 z r" if "rep nodes z r" for z r
      using rep_same_parents[OF mp that] .
    have "forest_inv n ?ns2" using len pres by (intro invI) auto
    with l mp mr pres True show ?thesis by auto
  next
    case False
    show ?thesis
    proof (cases "rank (nodes ! a) > rank (nodes ! b)")
      case True
      let ?ns = "nodes[b := (nodes ! b)\<lparr>p := a\<rparr>]"
      have l: "link nodes a b = Inr ?ns" using True ra rb by (simp add: link_def)
      have pres: "rep ?ns z (if r = a \<or> r = b then a else r)" if "rep nodes z r" for z r
        using rep_link[OF b a _ that] False by auto
      have "forest_inv n ?ns" using len pres by (intro invI) auto
      with l pres True False show ?thesis by auto
    next
      case nle: False
      let ?ns1 = "nodes[a := (nodes ! a)\<lparr>p := b\<rparr>]"
      let ?ns2 = "?ns1[b := (?ns1 ! b)\<lparr>rank := rank (?ns1 ! b) + 1\<rparr>]"
      have pres1: "rep ?ns1 z (if r = a \<or> r = b then b else r)" if "rep nodes z r" for z r
        using rep_link[OF a b False that] by auto
      have mp: "map p ?ns2 = map p ?ns1"
        by (rule map_p_rank_update)
      have pres2: "rep ?ns2 z (if r = a \<or> r = b then b else r)" if "rep nodes z r" for z r
        using rep_same_parents[OF mp pres1[OF that]] .
      show ?thesis
      proof (cases "rank (nodes ! a) = rank (nodes ! b)")
        case True
        have l: "link nodes a b = Inr ?ns2" using True nle False ra rb by (simp add: link_def Let_def)
        have "forest_inv n ?ns2" using len pres2 by (intro invI) auto
        with l pres2 nle False show ?thesis by auto
      next
        case neq: False
        have l: "link nodes a b = Inr ?ns1" using neq nle False ra rb by (simp add: link_def Let_def)
        have "forest_inv n ?ns1" using len pres1 by (intro invI) auto
        with l pres1 nle False show ?thesis by auto
      qed
    qed
  qed
qed


lemma findset_inv:
  assumes inv: "forest_inv n nodes" and x: "x < n"
  shows "\<exists>r nodes1. rep nodes x r \<and> findset nodes x = Some (Inr (r, nodes1))
     \<and> map rank nodes1 = map rank nodes \<and> forest_inv n nodes1
     \<and> (\<forall>z r'. rep nodes z r' \<longrightarrow> rep nodes1 z r')"
proof -
  from inv x obtain r where r: "rep nodes x r" by (auto simp: forest_inv_def)
  from findset_rep[OF r] obtain nodes1 where
    f: "findset nodes x = Some (Inr (r, nodes1))" and
    rk: "map rank nodes1 = map rank nodes" and
    pr: "\<forall>z r'. rep nodes z r' \<longrightarrow> rep nodes1 z r'"
    by blast
  from rk have "length nodes1 = length nodes" by (metis length_map)
  with inv pr have "forest_inv n nodes1" unfolding forest_inv_def by metis
  with r f rk pr show ?thesis by blast
qed

lemma rank_nth_eq:
  "map rank nodes1 = map rank nodes \<Longrightarrow> z < length nodes \<Longrightarrow> rank (nodes1 ! z) = rank (nodes ! z)"
  by (metis length_map nth_map)

lemma union_inv:
  assumes inv: "forest_inv n nodes" and x: "x < n" and y: "y < n"
  shows "\<exists>rx ry nodes1 nodes2 nodes3.
      rep nodes x rx \<and> rep nodes y ry
    \<and> findset nodes x = Some (Inr (rx, nodes1))
    \<and> findset nodes1 y = Some (Inr (ry, nodes2))
    \<and> union_djs nodes x y = Some (Inr nodes3)
    \<and> forest_inv n nodes3
    \<and> (\<forall>z r. rep nodes z r \<longrightarrow>
          rep nodes3 z (if r = rx \<or> r = ry
                        then (if rank (nodes ! rx) > rank (nodes ! ry) then rx else ry) else r))
    \<and> (rx = ry \<longrightarrow> map p nodes3 = map p nodes2
          \<and> map rank nodes3 = (map rank nodes)[rx := rank (nodes ! rx) + 1])"
proof -
  from findset_inv[OF inv x] obtain rx nodes1 where
    rx: "rep nodes x rx" and f1: "findset nodes x = Some (Inr (rx, nodes1))" and
    rk1: "map rank nodes1 = map rank nodes" and inv1: "forest_inv n nodes1" and
    pr1: "\<forall>z r'. rep nodes z r' \<longrightarrow> rep nodes1 z r'"
    by blast
  from findset_inv[OF inv1 y] obtain ry nodes2 where
    ry1: "rep nodes1 y ry" and f2: "findset nodes1 y = Some (Inr (ry, nodes2))" and
    rk2: "map rank nodes2 = map rank nodes1" and inv2: "forest_inv n nodes2" and
    pr2: "\<forall>z r'. rep nodes1 z r' \<longrightarrow> rep nodes2 z r'"
    by blast
  from inv y obtain ry0 where ry0: "rep nodes y ry0" by (auto simp: forest_inv_def)
  with pr1 ry1 have "ry0 = ry" using rep_det by blast
  with ry0 have ry: "rep nodes y ry" by simp
  from rx ry pr1 pr2 have a: "rep nodes2 rx rx" and b: "rep nodes2 ry ry"
    using rep_of_root by blast+
  from rx ry have rxl: "rx < length nodes" and ryl: "ry < length nodes"
    using rep_is_root by blast+
  from rk1 rk2 have rk: "map rank nodes2 = map rank nodes" by simp
  have rkx: "rank (nodes2 ! rx) = rank (nodes ! rx)" and rky: "rank (nodes2 ! ry) = rank (nodes ! ry)"
    using rank_nth_eq[OF rk] rxl ryl by blast+
  from link_roots[OF inv2 a b] obtain nodes3 where
    l: "link nodes2 rx ry = Inr nodes3" and inv3: "forest_inv n nodes3" and
    pr3: "\<forall>z r. rep nodes2 z r \<longrightarrow>
           rep nodes3 z (if r = rx \<or> r = ry
                         then (if rank (nodes2 ! rx) > rank (nodes2 ! ry) then rx else ry) else r)" and
    same: "rx = ry \<longrightarrow> map p nodes3 = map p nodes2
            \<and> map rank nodes3 = (map rank nodes2)[rx := rank (nodes2 ! rx) + 1]"
    by blast
  have u: "union_djs nodes x y = Some (Inr nodes3)"
    using f1 f2 l by (simp add: union_djs_def)
  have pr: "\<forall>z r. rep nodes z r \<longrightarrow>
          rep nodes3 z (if r = rx \<or> r = ry
                        then (if rank (nodes ! rx) > rank (nodes ! ry) then rx else ry) else r)"
  proof (intro allI impI)
    fix z r
    assume "rep nodes z r"
    with pr1 pr2 have "rep nodes2 z r" by blast
    with pr3 have "rep nodes3 z (if r = rx \<or> r = ry
                         then (if rank (nodes2 ! rx) > rank (nodes2 ! ry) then rx else ry) else r)"
      by blast
    then show "rep nodes3 z (if r = rx \<or> r = ry
                        then (if rank (nodes ! rx) > rank (nodes ! ry) then rx else ry) else r)"
      by (simp only: rkx rky)
  qed
  have same': "rx = ry \<longrightarrow> map p nodes3 = map p nodes2
          \<and> map rank nodes3 = (map rank nodes)[rx := rank (nodes ! rx) + 1]"
    using same rk rkx rky by auto
  from rx ry f1 f2 u inv3 pr same' show ?thesis by blast
qed

lemma forest_forest_inv: "forest n nodes \<Longrightarrow> forest_inv n nodes"
proof (induction rule: forest.induct)
  case (forest_init n)
  show ?case by (rule forest_inv_init)
next
  case (forest_findset n nodes x r nodes1)
  from findset_inv[OF forest_findset.IH forest_findset.hyps(2)] forest_findset.hyps(3)
  show ?case by auto
next
  case (forest_union n nodes x y nodes1)
  from union_inv[OF forest_union.IH forest_union.hyps(2,3)] forest_union.hyps(4)
  show ?case by auto
qed

lemma representative_rep:
  assumes inv: "forest_inv n nodes" and z: "z < n"
  shows "representative nodes z = Some r \<longleftrightarrow> rep nodes z r"
proof -
  from findset_inv[OF inv z] obtain r0 nodes1 where
    r0: "rep nodes z r0" and f: "findset nodes z = Some (Inr (r0, nodes1))" by blast
  from f have "representative nodes z = Some r0" by (simp add: representative_def)
  with r0 show ?thesis using rep_det by auto
qed

lemma representative_preserved:
  assumes inv: "forest_inv n nodes" and inv1: "forest_inv n nodes1"
    and pr: "\<forall>z r. rep nodes z r \<longrightarrow> rep nodes1 z r" and z: "z < n"
  shows "representative nodes1 z = representative nodes z"
proof -
  from inv z obtain r where r: "rep nodes z r" by (auto simp: forest_inv_def)
  with pr have "rep nodes1 z r" by blast
  with r show ?thesis
    using representative_rep[OF inv z] representative_rep[OF inv1 z] by metis
qed

text \<open>
  Claim C7. In every forest over \<open>[0,n)\<close> and for all \<open>x\<close>, \<open>y\<close> below \<open>n\<close>:
  \<open>findset x\<close> returns, a second \<open>findset x\<close> on the compressed forest returns the
  same representative, and the compression leaves the representative of every element
  as it was; \<open>union x y\<close> returns, and right after it \<open>findset x\<close> and then
  \<open>findset y\<close> return the same representative.
\<close>

theorem findset_idempotent_union_joins:
  assumes f: "forest n nodes" and x: "x < n" and y: "y < n"
  shows "(\<exists>r nodes1 nodes2.
            findset nodes x = Some (Inr (r, nodes1))
          \<and> findset nodes1 x = Some (Inr (r, nodes2))
          \<and> (\<forall>z<n. representative nodes1 z = representative nodes z))
       \<and> (\<exists>nodes3 r nodes4 nodes5.
            union_djs nodes x y = Some (Inr nodes3)
          \<and> findset nodes3 x = Some (Inr (r, nodes4))
          \<and> findset nodes4 y = Some (Inr (r, nodes5)))"
proof
  have inv: "forest_inv n nodes" using f by (rule forest_forest_inv)
  from findset_inv[OF inv x] obtain r nodes1 where
    r: "rep nodes x r" and f1: "findset nodes x = Some (Inr (r, nodes1))" and
    inv1: "forest_inv n nodes1" and pr1: "\<forall>z r'. rep nodes z r' \<longrightarrow> rep nodes1 z r'"
    by blast
  from findset_inv[OF inv1 x] obtain r' nodes2 where
    r': "rep nodes1 x r'" and f2: "findset nodes1 x = Some (Inr (r', nodes2))"
    by blast
  from r pr1 r' have "r' = r" using rep_det by blast
  moreover have "\<forall>z<n. representative nodes1 z = representative nodes z"
    using representative_preserved[OF inv inv1 pr1] by blast
  ultimately show "\<exists>r nodes1 nodes2.
            findset nodes x = Some (Inr (r, nodes1))
          \<and> findset nodes1 x = Some (Inr (r, nodes2))
          \<and> (\<forall>z<n. representative nodes1 z = representative nodes z)"
    using f1 f2 by blast
next
  have inv: "forest_inv n nodes" using f by (rule forest_forest_inv)
  from union_inv[OF inv x y] obtain rx ry nodes3 where
    rx: "rep nodes x rx" and ry: "rep nodes y ry" and
    u: "union_djs nodes x y = Some (Inr nodes3)" and inv3: "forest_inv n nodes3" and
    pr: "\<forall>z r. rep nodes z r \<longrightarrow>
          rep nodes3 z (if r = rx \<or> r = ry
                        then (if rank (nodes ! rx) > rank (nodes ! ry) then rx else ry) else r)"
    by blast
  let ?m = "if rank (nodes ! rx) > rank (nodes ! ry) then rx else ry"
  from pr rx ry have x3: "rep nodes3 x ?m" and y3: "rep nodes3 y ?m" by fastforce+
  from findset_inv[OF inv3 x] obtain r nodes4 where
    r: "rep nodes3 x r" and f4: "findset nodes3 x = Some (Inr (r, nodes4))" and
    inv4: "forest_inv n nodes4" and pr4: "\<forall>z r'. rep nodes3 z r' \<longrightarrow> rep nodes4 z r'"
    by blast
  from findset_inv[OF inv4 y] obtain r' nodes5 where
    r': "rep nodes4 y r'" and f5: "findset nodes4 y = Some (Inr (r', nodes5))"
    by blast
  from r x3 have "r = ?m" by (rule rep_det)
  moreover from y3 pr4 r' have "r' = ?m" using rep_det by blast
  ultimately show "\<exists>nodes3 r nodes4 nodes5.
            union_djs nodes x y = Some (Inr nodes3)
          \<and> findset nodes3 x = Some (Inr (r, nodes4))
          \<and> findset nodes4 y = Some (Inr (r, nodes5))"
    using u f4 f5 by metis
qed


text \<open>
  Claim C3 as stated fails. After \<open>union 0 1\<close> on two singletons both elements have
  representative \<open>1\<close>; a second \<open>union 0 1\<close> raises the rank of the root from 1 to 2.
\<close>

theorem union_same_set_not_noop:
  "union_djs (init_nodes 2) 0 1 = Some (Inr [\<lparr>p = 1, rank = 0\<rparr>, \<lparr>p = 1, rank = 1\<rparr>]) \<and>
   findset [\<lparr>p = 1, rank = 0\<rparr>, \<lparr>p = 1, rank = 1\<rparr>] 0
     = Some (Inr (1, [\<lparr>p = 1, rank = 0\<rparr>, \<lparr>p = 1, rank = 1\<rparr>])) \<and>
   findset [\<lparr>p = 1, rank = 0\<rparr>, \<lparr>p = 1, rank = 1\<rparr>] 1
     = Some (Inr (1, [\<lparr>p = 1, rank = 0\<rparr>, \<lparr>p = 1, rank = 1\<rparr>])) \<and>
   union_djs [\<lparr>p = 1, rank = 0\<rparr>, \<lparr>p = 1, rank = 1\<rparr>] 0 1
     = Some (Inr [\<lparr>p = 1, rank = 0\<rparr>, \<lparr>p = 1, rank = 2\<rparr>]) \<and>
   map rank [\<lparr>p = 1, rank = 0\<rparr>, \<lparr>p = 1, rank = 2\<rparr>]
     \<noteq> map rank [\<lparr>p = 1, rank = 0\<rparr>, \<lparr>p = 1, rank = 1\<rparr>]"
  by code_simp


text \<open>
  Claim C7, witness: the three singletons, with \<open>x = 0\<close> and \<open>y = 2\<close>.
\<close>

theorem findset_idempotent_union_joins_witness:
  "forest 3 (init_nodes 3) \<and>
   (\<exists>r nodes1 nodes2.
      findset (init_nodes 3) 0 = Some (Inr (r, nodes1)) \<and> findset nodes1 0 = Some (Inr (r, nodes2))) \<and>
   (\<exists>nodes3 r nodes4 nodes5.
      union_djs (init_nodes 3) 0 2 = Some (Inr nodes3) \<and>
      findset nodes3 0 = Some (Inr (r, nodes4)) \<and> findset nodes4 2 = Some (Inr (r, nodes5)))"
proof -
  have f: "forest 3 (init_nodes 3)" by (rule forest_init)
  have l0: "(0::nat) < 3" and l2: "(2::nat) < 3" by simp_all
  note t = findset_idempotent_union_joins[OF f l0 l2]
  from t[THEN conjunct1] obtain r nodes1 nodes2 where
    "findset (init_nodes 3) 0 = Some (Inr (r, nodes1))" "findset nodes1 0 = Some (Inr (r, nodes2))"
    by blast
  then have a: "\<exists>r nodes1 nodes2.
      findset (init_nodes 3) 0 = Some (Inr (r, nodes1)) \<and> findset nodes1 0 = Some (Inr (r, nodes2))"
    by blast
  show ?thesis by (rule conjI[OF f conjI[OF a t[THEN conjunct2]]])
qed

text \<open>
  Claim C3, amended. When \<open>findset x\<close> and then \<open>findset y\<close> return the same root
  \<open>r\<close>, \<open>union x y\<close> returns; the parents are those the two finds left (path
  compression only), every rank is as before except the rank of \<open>r\<close>, which is one
  higher, and the representative of every element is unchanged.
\<close>

theorem union_same_set_effect:
  assumes f: "forest n nodes" and x: "x < n" and y: "y < n"
    and fx: "findset nodes x = Some (Inr (r, nodes1))"
    and fy: "findset nodes1 y = Some (Inr (r, nodes2))"
  shows "\<exists>nodes3. union_djs nodes x y = Some (Inr nodes3)
      \<and> map p nodes3 = map p nodes2
      \<and> map rank nodes3 = (map rank nodes)[r := rank (nodes ! r) + 1]
      \<and> (\<forall>z<n. representative nodes3 z = representative nodes z)"
proof -
  have inv: "forest_inv n nodes" using f by (rule forest_forest_inv)
  from union_inv[OF inv x y] obtain rx ry nodes1' nodes2' nodes3 where
    f1: "findset nodes x = Some (Inr (rx, nodes1'))" and
    f2: "findset nodes1' y = Some (Inr (ry, nodes2'))" and
    u: "union_djs nodes x y = Some (Inr nodes3)" and inv3: "forest_inv n nodes3" and
    pr: "\<forall>z r. rep nodes z r \<longrightarrow>
          rep nodes3 z (if r = rx \<or> r = ry
                        then (if rank (nodes ! rx) > rank (nodes ! ry) then rx else ry) else r)" and
    same: "rx = ry \<longrightarrow> map p nodes3 = map p nodes2'
          \<and> map rank nodes3 = (map rank nodes)[rx := rank (nodes ! rx) + 1]"
    by blast
  from f1 fx have e1: "rx = r" "nodes1' = nodes1" by simp_all
  with f2 fy have e2: "ry = r" "nodes2' = nodes2" by simp_all
  have pr': "\<forall>z r. rep nodes z r \<longrightarrow> rep nodes3 z r"
  proof (intro allI impI)
    fix z r0
    assume "rep nodes z r0"
    with pr have "rep nodes3 z (if r0 = rx \<or> r0 = ry
                        then (if rank (nodes ! rx) > rank (nodes ! ry) then rx else ry) else r0)"
      by blast
    then show "rep nodes3 z r0" by (simp add: e1 e2 split: if_splits)
  qed
  have "\<forall>z<n. representative nodes3 z = representative nodes z"
    using representative_preserved[OF inv inv3 pr'] by blast
  with u same e1 e2 show ?thesis by simp
qed

text \<open>
  Claim C3, witness of the amended statement: two singletons, \<open>x = y = 1\<close>.
\<close>

theorem union_same_set_effect_witness:
  "forest 2 (init_nodes 2) \<and>
   findset (init_nodes 2) 1 = Some (Inr (1, init_nodes 2)) \<and>
   (\<exists>nodes3. union_djs (init_nodes 2) 1 1 = Some (Inr nodes3) \<and>
      map p nodes3 = map p (init_nodes 2) \<and> map rank nodes3 = [0, 1])"
proof -
  have f: "forest 2 (init_nodes 2)" by (rule forest_init)
  have l: "(1::nat) < 2" by simp
  have fx: "findset (init_nodes 2) 1 = Some (Inr (1, init_nodes 2))"
    by code_simp
  from union_same_set_effect[OF f l l fx fx] obtain nodes3 where
    u: "union_djs (init_nodes 2) 1 1 = Some (Inr nodes3)" and
    mp: "map p nodes3 = map p (init_nodes 2)" and
    mr: "map rank nodes3 = (map rank (init_nodes 2))[1 := rank (init_nodes 2 ! 1) + 1]"
    by blast
  have "(map rank (init_nodes 2))[1 := rank (init_nodes 2 ! 1) + 1] = [0, 1]"
    by code_simp
  with mr have "map rank nodes3 = [0, 1]" by simp
  with u mp have e: "\<exists>nodes3. union_djs (init_nodes 2) 1 1 = Some (Inr nodes3) \<and>
      map p nodes3 = map p (init_nodes 2) \<and> map rank nodes3 = [0, 1]"
    by (intro exI[of _ nodes3] conjI)
  show ?thesis by (rule conjI[OF f conjI[OF fx e]])
qed

section \<open>The priority queue: the position index\<close>

lemma set_update_lower:
  "\<forall>i\<in>set xs. (l :: int) \<le> i \<Longrightarrow> l \<le> v \<Longrightarrow> \<forall>i\<in>set (xs[k := v]). l \<le> i"
  by (metis insert_iff set_update_subset_insert subsetD)

lemma index_wf_update:
  "index_wf n \<lparr>minheap = h, index = idx\<rparr> \<Longrightarrow> index_wf n \<lparr>minheap = h1, index = idx[k := int pos]\<rparr>"
  unfolding index_wf_def using set_update_lower[of idx "- 1" "int pos" k] by simp

lemma percolate_up_from_index_wf:
  "percolate_up_from current position q = Inr q1 \<Longrightarrow> index_wf n q \<Longrightarrow> index_wf n q1"
proof (induction current position q rule: percolate_up_from.induct)
  case (1 current position q)
  have q: "q = \<lparr>minheap = minheap q, index = index q\<rparr>" by simp
  show ?case
  proof (cases "parent position \<ge> 0 \<and> snd (minheap q ! nat (parent position)) > snd current")
    case True
    let ?h1 = "(minheap q)[position := minheap q ! nat (parent position)]"
    let ?q1 = "\<lparr>minheap = ?h1, index = (index q)[fst (?h1 ! position) := int position]\<rparr>"
    from True "1.prems"(1) have ok: "\<not> length (index q) \<le> fst (?h1 ! position)"
      and r: "percolate_up_from current (nat (parent position)) ?q1 = Inr q1"
      by (subst (asm) percolate_up_from.simps, simp add: Let_def split: if_splits)+
    have "index_wf n ?q1" using "1.prems"(2) q index_wf_update by metis
    from "1.IH"[OF True refl ok r this] show ?thesis .
  next
    case False
    let ?h1 = "(minheap q)[position := current]"
    from False "1.prems"(1)
    have "q1 = \<lparr>minheap = ?h1, index = (index q)[fst (?h1 ! position) := int position]\<rparr>"
      by (subst (asm) percolate_up_from.simps) (auto simp: Let_def split: if_splits)
    then show ?thesis using "1.prems"(2) q index_wf_update by metis
  qed
qed


lemma percolate_down_from_index_wf:
  "percolate_down_from current position q = Inr q1 \<Longrightarrow> index_wf n q \<Longrightarrow> index_wf n q1"
proof (induction current position q rule: percolate_down_from.induct)
  case (1 current position q)
  have q: "q = \<lparr>minheap = minheap q, index = index q\<rparr>" by simp
  let ?m = "minChild (minheap q) position"
  show ?case
  proof (cases "left position < length (minheap q) \<and> snd (minheap q ! ?m) < snd current")
    case True
    let ?h1 = "(minheap q)[position := minheap q ! ?m]"
    let ?q1 = "\<lparr>minheap = ?h1, index = (index q)[fst (?h1 ! position) := int position]\<rparr>"
    from True "1.prems"(1) have ok: "\<not> length (index q) \<le> fst (?h1 ! position)"
      and r: "percolate_down_from current ?m ?q1 = Inr q1"
      by (subst (asm) percolate_down_from.simps, simp add: Let_def split: if_splits)+
    have "index_wf n ?q1" using "1.prems"(2) q index_wf_update by metis
    from "1.IH"[OF True refl ok r this] show ?thesis .
  next
    case False
    let ?h1 = "(minheap q)[position := current]"
    from False "1.prems"(1)
    have "q1 = \<lparr>minheap = ?h1, index = (index q)[fst (?h1 ! position) := int position]\<rparr>"
      by (subst (asm) percolate_down_from.simps) (auto simp: Let_def split: if_splits)
    then show ?thesis using "1.prems"(2) q index_wf_update by metis
  qed
qed

lemma heapify_index_wf:
  "heapify_index idx ies = Inr idx1 \<Longrightarrow> length idx = n \<and> (\<forall>i\<in>set idx. - 1 \<le> i)
   \<Longrightarrow> length idx1 = n \<and> (\<forall>i\<in>set idx1. - 1 \<le> i)"
proof (induction idx ies rule: heapify_index.induct)
  case (1 idx)
  then show ?case by simp
next
  case (2 idx i e rest)
  from "2.prems"(1) have ok: "\<not> length idx \<le> fst e"
    and r: "heapify_index (idx[fst e := int i]) rest = Inr idx1"
    by (auto split: if_splits)
  have "length (idx[fst e := int i]) = n \<and> (\<forall>j\<in>set (idx[fst e := int i]). - 1 \<le> j)"
    using "2.prems"(2) set_update_lower[of idx "- 1" "int i" "fst e"] by simp
  from "2.IH"[OF ok r this] show ?case .
qed

lemma append_absent_index: "append_absent q prs = Inr q1 \<Longrightarrow> index q1 = index q"
  by (induction q prs rule: append_absent.induct) (auto split: if_splits)

lemma insert_pq_index_wf:
  assumes "insert_pq q element val = Inr (b, q1)" and "index_wf n q"
  shows "index_wf n q1"
proof (cases "index q ! element \<ge> 0")
  case True
  with assms show ?thesis by (auto simp: insert_pq_def split: if_splits)
next
  case False
  let ?q0 = "q\<lparr>minheap := minheap q @ [(element, val)]\<rparr>"
  from False assms(1) have "percolate_up ?q0 (length (minheap q)) = Inr q1"
    by (auto simp: insert_pq_def split: if_splits sum.splits)
  then have "percolate_up_from (minheap ?q0 ! length (minheap q)) (length (minheap q)) ?q0 = Inr q1"
    by (simp add: percolate_up_def split: if_splits)
  moreover have "index_wf n ?q0" using assms(2) by (simp add: index_wf_def)
  ultimately show ?thesis by (rule percolate_up_from_index_wf)
qed

lemma insert_each_index_wf:
  "insert_each q prs = Inr q1 \<Longrightarrow> index_wf n q \<Longrightarrow> index_wf n q1"
proof (induction q prs rule: insert_each.induct)
  case (1 q)
  then show ?case by simp
next
  case (2 q el val prs)
  from "2.prems"(1) obtain b q0 where s: "insert_pq q el val = Inr (b, q0)"
    and r: "insert_each q0 prs = Inr q1"
    by (auto split: sum.splits)
  from "2.IH"[OF s refl r insert_pq_index_wf[OF s "2.prems"(2)]] show ?case .
qed

lemma insertAll_index_wf:
  assumes "insertAll q pairs = Inr q1" and "index_wf n q"
  shows "index_wf n q1"
proof (cases "length pairs \<ge> length (minheap q)")
  case True
  with assms(1) obtain q0 where a: "append_absent q pairs = Inr q0" and h: "heapify q0 = Inr q1"
    by (auto simp: insertAll_def split: sum.splits)
  from h obtain h1 idx1 where "heapify_index (index q0) (enumerate 0 h1) = Inr idx1"
    and q1: "q1 = \<lparr>minheap = h1, index = idx1\<rparr>"
    by (auto simp: heapify_def split: sum.splits)
  with heapify_index_wf[of "index q0" "enumerate 0 h1" idx1 n] assms(2) append_absent_index[OF a]
  show ?thesis by (simp add: index_wf_def)
next
  case False
  with assms show ?thesis by (auto simp: insertAll_def intro: insert_each_index_wf)
qed

lemma extractMin_cases:
  assumes "extractMin q = Inr (e, q1)"
  obtains (single) "minheap q \<noteq> []" "butlast (minheap q) = []" "e = fst (minheap q ! 0)"
      "e < length (index q)"
      "q1 = \<lparr>minheap = [], index = (index q)[e := - 1]\<rparr>"
  | (sift) q0 where "minheap q \<noteq> []" "butlast (minheap q) \<noteq> []" "e = fst (minheap q ! 0)"
      "percolate_down_from (last (minheap q)) 0
         \<lparr>minheap = (butlast (minheap q))[0 := last (minheap q)], index = index q\<rparr> = Inr q0"
      "e < length (index q0)"
      "q1 = q0\<lparr>index := (index q0)[e := - 1]\<rparr>"
proof (cases "butlast (minheap q) = []")
  case True
  with assms show ?thesis
    by (intro single) (auto simp: extractMin_def Let_def split: if_splits)
next
  case False
  let ?q0 = "\<lparr>minheap = (butlast (minheap q))[0 := last (minheap q)], index = index q\<rparr>"
  from False assms obtain q0 where ne: "minheap q \<noteq> []" and e: "e = fst (minheap q ! 0)"
    and p: "percolate_down ?q0 0 = Inr q0" and l: "e < length (index q0)"
    and q1: "q1 = q0\<lparr>index := (index q0)[e := - 1]\<rparr>"
    by (auto simp: extractMin_def Let_def split: if_splits sum.splits)
  from p False have "percolate_down_from (last (minheap q)) 0 ?q0 = Inr q0"
    by (simp add: percolate_down_def split: if_splits)
  with False ne e l q1 show ?thesis by (intro sift)
qed

lemma extractMin_index_wf:
  assumes "extractMin q = Inr (e, q1)" and "index_wf n q"
  shows "index_wf n q1"
  using assms(1)
proof (cases rule: extractMin_cases)
  case single
  then show ?thesis
    using assms(2) set_update_lower[of "index q" "- 1" "- 1" e] by (simp add: index_wf_def)
next
  case (sift q0)
  have "index_wf n \<lparr>minheap = (butlast (minheap q))[0 := last (minheap q)], index = index q\<rparr>"
    using assms(2) by (simp add: index_wf_def)
  with sift(4) have "index_wf n q0" by (rule percolate_down_from_index_wf)
  then show ?thesis
    unfolding sift(6) index_wf_def using set_update_lower[of "index q0" "- 1" "- 1" e] by simp
qed

lemma changePriority_index_wf:
  assumes "changePriority q element val = Inr (b, q1)" and "index_wf n q"
  shows "index_wf n q1"
proof -
  let ?pos = "nat (index q ! element)"
  let ?q0 = "q\<lparr>minheap := (minheap q)[?pos := (element, val)]\<rparr>"
  have wf0: "index_wf n ?q0" using assms(2) by (simp add: index_wf_def)
  from assms(1) consider "q1 = q"
    | "percolate_up ?q0 ?pos = Inr q1" | "percolate_down ?q0 ?pos = Inr q1"
    by (auto simp: changePriority_def Let_def split: sum.splits bool.splits if_splits)
  then show ?thesis
  proof cases
    case 1
    with assms(2) show ?thesis by simp
  next
    case 2
    then have "percolate_up_from (minheap ?q0 ! ?pos) ?pos ?q0 = Inr q1"
      by (simp add: percolate_up_def split: if_splits)
    then show ?thesis using wf0 by (rule percolate_up_from_index_wf)
  next
    case 3
    then have "percolate_down_from (minheap ?q0 ! ?pos) ?pos ?q0 = Inr q1"
      by (simp add: percolate_down_def split: if_splits)
    then show ?thesis using wf0 by (rule percolate_down_from_index_wf)
  qed
qed

lemma pq_reachable_index_wf: "pq_reachable n q \<Longrightarrow> index_wf n q"
proof (induction rule: pq_reachable.induct)
  case reach_init
  show ?case by (simp add: index_wf_def PQ_init_def)
next
  case (reach_insert q element val b q1)
  then show ?case using insert_pq_index_wf by blast
next
  case (reach_insertAll q pairs q1)
  then show ?case using insertAll_index_wf by blast
next
  case (reach_extractMin q element q1)
  then show ?case using extractMin_index_wf by blast
next
  case (reach_changePriority q element val b q1)
  then show ?case using changePriority_index_wf by blast
qed

text \<open>
  Claim C10. In every reachable queue over \<open>[0,n)\<close>, for an element below \<open>n\<close> that
  \<open>contains\<close> reports absent, the index entry is \<open>-1\<close>, so \<open>getPriority\<close> reads the
  last entry of the heap and returns its priority; it raises \<open>IndexError\<close> exactly when
  the heap is empty.
\<close>

theorem getPriority_absent_reads_last:
  assumes r: "pq_reachable n q" and e: "element < n" and c: "contains q element = Inr False"
  shows "getPriority q element
       = (if minheap q = [] then Inl IndexError else Inr (snd (last (minheap q))))"
proof -
  from pq_reachable_index_wf[OF r] have l: "length (index q) = n"
    and lo: "\<forall>i\<in>set (index q). - 1 \<le> i"
    by (simp_all add: index_wf_def)
  from c l e have "index q ! element < 0" by (simp add: contains_def)
  moreover from lo l e have "- 1 \<le> index q ! element" by simp
  ultimately have i: "index q ! element = - 1" by simp
  show ?thesis
  proof (cases "minheap q = []")
    case True
    with i l e show ?thesis by (simp add: getPriority_def py_get_def)
  next
    case False
    then have "minheap q ! nat (int (length (minheap q)) - 1) = last (minheap q)"
      by (simp add: last_conv_nth nat_diff_distrib')
    moreover from False have "Suc 0 \<le> length (minheap q)" by (cases "minheap q") simp_all
    ultimately show ?thesis using False i l e by (simp add: getPriority_def py_get_def)
  qed
qed



text \<open>
  Claim C10, witness: the queue over \<open>[0,2)\<close> after \<open>insert 0 5\<close>, asked for element 1.
\<close>

theorem getPriority_absent_reads_last_witness:
  "pq_reachable 2 \<lparr>minheap = [(0, 5 :: int)], index = [0, - 1]\<rparr>
   \<and> contains \<lparr>minheap = [(0, 5 :: int)], index = [0, - 1]\<rparr> 1 = Inr False
   \<and> getPriority \<lparr>minheap = [(0, 5 :: int)], index = [0, - 1]\<rparr> 1 = Inr 5"
proof -
  let ?q = "\<lparr>minheap = [(0, 5 :: int)], index = [0, - 1]\<rparr>"
  have i: "insert_pq (PQ_init 2) 0 (5 :: int) = Inr (True, ?q)" by code_simp
  have l0: "(0 :: nat) < 2" and l1: "(1 :: nat) < 2" by simp_all
  have r: "pq_reachable 2 ?q" by (rule reach_insert[OF reach_init l0 i])
  have c: "contains ?q 1 = Inr False" by code_simp
  from getPriority_absent_reads_last[OF r l1 c] have g: "getPriority ?q 1 = Inr 5" by simp
  show ?thesis by (rule conjI[OF r conjI[OF c g]])
qed

text \<open>
  Claim C4 fails when an element occurs twice among the pairs. On the empty queue over
  \<open>[0,1)\<close>, \<open>insertAll [(0,1), (0,2)]\<close> takes the bulk branch, which tests \<open>_index\<close>
  without writing it, and appends both pairs: the queue has two entries and element 0
  has priority 2. Inserting the pairs one by one adds the first only: one entry, priority 1.
\<close>

theorem insertAll_duplicate_pairs:
  "insertAll (PQ_init 1) [(0, 1 :: int), (0, 2)]
     = Inr \<lparr>minheap = [(0, 1), (0, 2)], index = [1]\<rparr>
   \<and> insert_each (PQ_init 1) [(0, 1 :: int), (0, 2)]
     = Inr \<lparr>minheap = [(0, 1)], index = [0]\<rparr>
   \<and> getPriority \<lparr>minheap = [(0, 1 :: int), (0, 2)], index = [1]\<rparr> 0 = Inr 2
   \<and> getPriority \<lparr>minheap = [(0, 1 :: int)], index = [0]\<rparr> 0 = Inr 1"
  by code_simp

text \<open>
  Claim C5 fails through the same branch of \<open>insertAll\<close>. After
  \<open>insertAll [(0,1), (1,2), (0,3)]\<close> on the empty queue over \<open>[0,2)\<close> and one
  \<open>extractMin\<close>, element 0 still occurs in the heap, at position 1, and its index
  entry is \<open>-1\<close>.
\<close>

theorem index_inconsistent_after_extractMin:
  "insertAll (PQ_init 2) [(0, 1 :: int), (1, 2), (0, 3)]
     = Inr \<lparr>minheap = [(0, 1), (1, 2), (0, 3)], index = [2, 1]\<rparr>
   \<and> extractMin \<lparr>minheap = [(0, 1 :: int), (1, 2), (0, 3)], index = [2, 1]\<rparr>
     = Inr (0, \<lparr>minheap = [(1, 2), (0, 3)], index = [- 1, 0]\<rparr>)
   \<and> fst (minheap \<lparr>minheap = [(1, 2 :: int), (0, 3)], index = [- 1, 0]\<rparr> ! 1) = 0
   \<and> index \<lparr>minheap = [(1, 2 :: int), (0, 3)], index = [- 1, 0]\<rparr> ! 0 = - 1"
  by code_simp

text \<open>
  Claim C6 fails in the state just reached. There \<open>contains 0\<close> is false; the next
  \<open>extractMin\<close> returns element 1 and, sifting the stale entry of element 0 to the root,
  writes its position: afterwards \<open>contains 0\<close> is true, so an element other than the
  extracted one has changed.
\<close>

theorem extractMin_revives_stale_entry:
  "insertAll (PQ_init 2) [(0, 1 :: int), (1, 2), (0, 3)]
     = Inr \<lparr>minheap = [(0, 1), (1, 2), (0, 3)], index = [2, 1]\<rparr>
   \<and> extractMin \<lparr>minheap = [(0, 1 :: int), (1, 2), (0, 3)], index = [2, 1]\<rparr>
     = Inr (0, \<lparr>minheap = [(1, 2), (0, 3)], index = [- 1, 0]\<rparr>)
   \<and> contains \<lparr>minheap = [(1, 2 :: int), (0, 3)], index = [- 1, 0]\<rparr> 0 = Inr False
   \<and> extractMin \<lparr>minheap = [(1, 2 :: int), (0, 3)], index = [- 1, 0]\<rparr>
     = Inr (1, \<lparr>minheap = [(0, 3)], index = [0, - 1]\<rparr>)
   \<and> contains \<lparr>minheap = [(0, 3 :: int)], index = [0, - 1]\<rparr> 0 = Inr True"
  by code_simp

section \<open>The graph family: edge lists and degrees\<close>

lemma concat_enumerate_empty:
  "(\<And>u x. x \<in> set xs \<Longrightarrow> f u x = []) \<Longrightarrow> concat (map (\<lambda>(u, x). f u x) (enumerate k xs)) = []"
  by (induction xs arbitrary: k) auto

lemma mset_concat_enumerate_update:
  "a < length xs \<Longrightarrow>
   mset (concat (map (\<lambda>(u, x). f u x) (enumerate k (xs[a := y])))) + mset (f (k + a) (xs ! a))
   = mset (concat (map (\<lambda>(u, x). f u x) (enumerate k xs))) + mset (f (k + a) y)"
proof (induction xs arbitrary: k a)
  case Nil
  then show ?case by simp
next
  case (Cons x xs)
  show ?case
  proof (cases a)
    case 0
    then show ?thesis by simp
  next
    case (Suc a')
    with Cons.prems have "a' < length xs" by simp
    from Cons.IH[OF this, of "Suc k"] Suc show ?thesis by simp
  qed
qed

lemma mset_concat_enumerate_append:
  assumes a: "a < length xs" and y: "f a y = f a (xs ! a) @ zs"
  shows "mset (concat (map (\<lambda>(u, x). f u x) (enumerate 0 (xs[a := y]))))
       = mset (concat (map (\<lambda>(u, x). f u x) (enumerate 0 xs))) + mset zs"
  using mset_concat_enumerate_update[OF a, of f 0 y] y by simp

lemma getEdgeList_with_add:
  assumes a: "a < length adj" and it: "iter (al_add (adj ! a) x) = iter (adj ! a) @ [b]"
  shows "mset (getEdgeList_with iter (adj[a := al_add (adj ! a) x]))
       = mset (getEdgeList_with iter adj) + (if b > a then {#(a, b)#} else {#})"
  unfolding getEdgeList_with_def
  by (subst mset_concat_enumerate_append[OF a, where zs = "if b > a then [(a, b)] else []"])
     (simp_all add: it)


lemma arcList_with_add:
  assumes a: "a < length adj" and it: "iter (al_add (adj ! a) x) = iter (adj ! a) @ [b]"
  shows "mset (arcList_with iter (adj[a := al_add (adj ! a) x]))
       = mset (arcList_with iter adj) + {#(a, b)#}"
  unfolding arcList_with_def
  by (subst mset_concat_enumerate_append[OF a, where zs = "[(a, b)]"]) (simp_all add: it)

lemma iter_plain_add: "iter_plain (al_add al b) = iter_plain al @ [b]"
  by (simp add: iter_plain_def al_add_def)

lemma iter_targets_add: "iter_targets (al_add al (b, w)) = iter_targets al @ [b]"
  by (simp add: iter_targets_def al_add_def)

lemma iter_weighted_add: "iter_weighted (al_add al e) = iter_weighted al @ [e]"
  by (simp add: iter_weighted_def al_add_def)

lemma iter_plain_init: "iter_plain AdjacencyList_init = []"
  by (simp add: iter_plain_def AdjacencyList_init_def)

lemma iter_targets_init: "iter_targets AdjacencyList_init = []"
  by (simp add: iter_targets_def AdjacencyList_init_def)

lemma iter_weighted_init: "iter_weighted AdjacencyList_init = []"
  by (simp add: iter_weighted_def AdjacencyList_init_def)

lemma unordered_cases:
  "(if b > a then {#(a, b)#} else {#}) + (if a > b then {#(b, a)#} else {#})
   = (if proper (a, b) then {#unordered (a, b)#} else {#})"
  by (auto simp: proper_def unordered_def min_def max_def)

lemma Graph_addEdge_edges:
  assumes "Graph_addEdge adj a b = Inr adj1"
  shows "mset (Graph_getEdgeList adj1)
       = mset (Graph_getEdgeList adj) + (if proper (a, b) then {#unordered (a, b)#} else {#})"
proof -
  let ?adj0 = "adj[a := al_add (adj ! a) b]"
  from assms have a: "a < length adj" and b: "b < length ?adj0"
    and r: "adj1 = ?adj0[b := al_add (?adj0 ! b) a]"
    by (auto simp: Graph_addEdge_def Let_def split: if_splits)
  have "mset (Graph_getEdgeList adj1)
      = mset (Graph_getEdgeList adj) + (if b > a then {#(a, b)#} else {#})
        + (if a > b then {#(b, a)#} else {#})"
  proof -
    have "mset (getEdgeList_with iter_plain ?adj0)
        = mset (getEdgeList_with iter_plain adj) + (if b > a then {#(a, b)#} else {#})"
      by (rule getEdgeList_with_add) (simp_all add: a iter_plain_add)
    moreover have "mset (getEdgeList_with iter_plain (?adj0[b := al_add (?adj0 ! b) a]))
        = mset (getEdgeList_with iter_plain ?adj0) + (if a > b then {#(b, a)#} else {#})"
      by (rule getEdgeList_with_add) (use b in \<open>simp_all add: iter_plain_add\<close>)
    ultimately show ?thesis unfolding Graph_getEdgeList_def r by simp
  qed
  then show ?thesis by (simp only: unordered_cases[symmetric] add.assoc)
qed

lemma Graph_addEdges_edges:
  "Graph_addEdges adj es = Inr adj1 \<Longrightarrow>
   mset (Graph_getEdgeList adj1)
   = mset (Graph_getEdgeList adj) + mset (map unordered (filter proper es))"
proof (induction adj es rule: Graph_addEdges.induct)
  case (1 adj)
  then show ?case by simp
next
  case (2 adj u v es)
  from "2.prems" obtain adj0 where s: "Graph_addEdge adj u v = Inr adj0"
    and r: "Graph_addEdges adj0 es = Inr adj1"
    by (auto split: sum.splits)
  from "2.IH"[OF s r] Graph_addEdge_edges[OF s] show ?case by simp
qed

lemma getEdgeList_with_init: "getEdgeList_with iter (replicate v AdjacencyList_init) = []"
  if "iter AdjacencyList_init = []"
  unfolding getEdgeList_with_def using that by (intro concat_enumerate_empty) simp

lemma arcList_with_init: "arcList_with iter (replicate v AdjacencyList_init) = []"
  if "iter AdjacencyList_init = []"
  unfolding arcList_with_def using that by (intro concat_enumerate_empty) simp

lemma Graph_init_edges:
  assumes "Graph_init v edges = Inr adj"
  shows "mset (Graph_getEdgeList adj) = mset (map unordered (filter proper edges))"
  using Graph_addEdges_edges[OF assms[unfolded Graph_init_def]]
  by (simp add: Graph_getEdgeList_def getEdgeList_with_init iter_plain_init)


lemma withWeights_add:
  assumes a: "a < length adj"
  shows "mset (WeightedGraph_getEdgeList_withWeights (adj[a := al_add (adj ! a) (b, w)]))
       = mset (WeightedGraph_getEdgeList_withWeights adj)
         + (if b > a then {#((a, b), w)#} else {#})"
  unfolding WeightedGraph_getEdgeList_withWeights_def
  by (subst mset_concat_enumerate_append[OF a, where zs = "if b > a then [((a, b), w)] else []"])
     (simp_all add: iter_weighted_add)

lemma unordered_w_cases:
  "(if b > a then {#((a, b), w)#} else {#}) + (if a > b then {#((b, a), w)#} else {#})
   = (if proper_w ((a, b), w) then {#unordered_w ((a, b), w)#} else {#})"
  by (auto simp: proper_w_def unordered_w_def proper_def unordered_def min_def max_def)

lemma WeightedGraph_addEdge_edges:
  assumes "WeightedGraph_addEdge adj a b w = Inr adj1"
  shows "mset (WeightedGraph_getEdgeList adj1)
       = mset (WeightedGraph_getEdgeList adj) + (if proper (a, b) then {#unordered (a, b)#} else {#})"
    and "mset (WeightedGraph_getEdgeList_withWeights adj1)
       = mset (WeightedGraph_getEdgeList_withWeights adj)
         + (if proper_w ((a, b), w) then {#unordered_w ((a, b), w)#} else {#})"
proof -
  let ?adj0 = "adj[a := al_add (adj ! a) (b, w)]"
  from assms have a: "a < length adj" and b: "b < length ?adj0"
    and r: "adj1 = ?adj0[b := al_add (?adj0 ! b) (a, w)]"
    by (auto simp: WeightedGraph_addEdge_def Let_def split: if_splits)
  have "mset (getEdgeList_with iter_targets ?adj0)
      = mset (getEdgeList_with iter_targets adj) + (if b > a then {#(a, b)#} else {#})"
    by (rule getEdgeList_with_add) (simp_all add: a iter_targets_add)
  moreover have "mset (getEdgeList_with iter_targets (?adj0[b := al_add (?adj0 ! b) (a, w)]))
      = mset (getEdgeList_with iter_targets ?adj0) + (if a > b then {#(b, a)#} else {#})"
    by (rule getEdgeList_with_add) (use b in \<open>simp_all add: iter_targets_add\<close>)
  ultimately have "mset (WeightedGraph_getEdgeList adj1)
      = mset (WeightedGraph_getEdgeList adj) + (if b > a then {#(a, b)#} else {#})
        + (if a > b then {#(b, a)#} else {#})"
    unfolding WeightedGraph_getEdgeList_def r by simp
  then show "mset (WeightedGraph_getEdgeList adj1)
       = mset (WeightedGraph_getEdgeList adj) + (if proper (a, b) then {#unordered (a, b)#} else {#})"
    by (simp only: unordered_cases[symmetric] add.assoc)
  have "mset (WeightedGraph_getEdgeList_withWeights adj1)
      = mset (WeightedGraph_getEdgeList_withWeights adj) + (if b > a then {#((a, b), w)#} else {#})
        + (if a > b then {#((b, a), w)#} else {#})"
    unfolding r using withWeights_add[OF a, of b w] withWeights_add[OF b, of a w] by simp
  then show "mset (WeightedGraph_getEdgeList_withWeights adj1)
       = mset (WeightedGraph_getEdgeList_withWeights adj)
         + (if proper_w ((a, b), w) then {#unordered_w ((a, b), w)#} else {#})"
    by (simp only: unordered_w_cases[symmetric] add.assoc)
qed

lemma WeightedGraph_addEdges_edges:
  "WeightedGraph_addEdges adj weights i es = Inr adj1 \<Longrightarrow>
   length es \<le> length weights - i
   \<and> mset (WeightedGraph_getEdgeList adj1)
     = mset (WeightedGraph_getEdgeList adj) + mset (map unordered (filter proper es))
   \<and> mset (WeightedGraph_getEdgeList_withWeights adj1)
     = mset (WeightedGraph_getEdgeList_withWeights adj)
       + mset (map unordered_w (filter proper_w (zip es (drop i weights))))"
proof (induction adj weights i es rule: WeightedGraph_addEdges.induct)
  case (1 adj weights i)
  then show ?case by simp
next
  case (2 adj weights i u v es)
  from "2.prems" have i: "i < length weights" by (auto split: if_splits)
  with "2.prems" obtain adj0 where s: "WeightedGraph_addEdge adj u v (weights ! i) = Inr adj0"
    and r: "WeightedGraph_addEdges adj0 weights (Suc i) es = Inr adj1"
    by (auto split: sum.splits if_splits)
  have d: "drop i weights = weights ! i # drop (Suc i) weights"
    using i by (simp add: Cons_nth_drop_Suc)
  from i have ni: "\<not> length weights \<le> i" by simp
  from "2.IH"[OF ni s r] i have "Suc (length es) \<le> length weights - i" by arith
  with "2.IH"[OF ni s r] WeightedGraph_addEdge_edges[OF s] show ?case
    by (simp add: d)
qed

lemma WeightedGraph_init_edges:
  assumes "WeightedGraph_init v edges weights = Inr adj"
  shows "length edges \<le> length weights"
    and "mset (WeightedGraph_getEdgeList adj) = mset (map unordered (filter proper edges))"
    and "mset (WeightedGraph_getEdgeList_withWeights adj)
       = mset (map unordered_w (filter proper_w (zip edges weights)))"
proof -
  have e1: "WeightedGraph_getEdgeList (replicate v AdjacencyList_init) = []"
    by (simp add: WeightedGraph_getEdgeList_def getEdgeList_with_init iter_targets_init)
  have e2: "WeightedGraph_getEdgeList_withWeights (replicate v AdjacencyList_init) = []"
    unfolding WeightedGraph_getEdgeList_withWeights_def
    by (intro concat_enumerate_empty) (simp add: iter_weighted_init)
  note t = WeightedGraph_addEdges_edges[OF assms[unfolded WeightedGraph_init_def]]
  from t show "length edges \<le> length weights" by simp
  from t e1 show "mset (WeightedGraph_getEdgeList adj) = mset (map unordered (filter proper edges))"
    by simp
  from t e2 show "mset (WeightedGraph_getEdgeList_withWeights adj)
       = mset (map unordered_w (filter proper_w (zip edges weights)))"
    by simp
qed


lemma Graph_addEdges_ok:
  "\<forall>e\<in>set es. fst e < length adj \<and> snd e < length adj \<Longrightarrow>
   \<exists>adj1. Graph_addEdges adj es = Inr adj1 \<and> length adj1 = length adj"
proof (induction adj es rule: Graph_addEdges.induct)
  case (1 adj)
  then show ?case by simp
next
  case (2 adj u v es)
  let ?adj0 = "adj[u := al_add (adj ! u) v]"
  let ?adj1 = "?adj0[v := al_add (?adj0 ! v) u]"
  from "2.prems" have s: "Graph_addEdge adj u v = Inr ?adj1"
    by (simp add: Graph_addEdge_def Let_def)
  have "\<forall>e\<in>set es. fst e < length ?adj1 \<and> snd e < length ?adj1"
    using "2.prems" by simp
  from "2.IH"[OF s this] s show ?case by simp
qed

lemma WeightedGraph_addEdges_ok:
  "\<forall>e\<in>set es. fst e < length adj \<and> snd e < length adj \<Longrightarrow> i + length es \<le> length weights \<Longrightarrow>
   \<exists>adj1. WeightedGraph_addEdges adj weights i es = Inr adj1 \<and> length adj1 = length adj"
proof (induction adj weights i es rule: WeightedGraph_addEdges.induct)
  case (1 adj weights i)
  then show ?case by simp
next
  case (2 adj weights i u v es)
  let ?w = "weights ! i"
  let ?adj0 = "adj[u := al_add (adj ! u) (v, ?w)]"
  let ?adj1 = "?adj0[v := al_add (?adj0 ! v) (u, ?w)]"
  from "2.prems" have ni: "\<not> length weights \<le> i" by simp
  from "2.prems" have s: "WeightedGraph_addEdge adj u v ?w = Inr ?adj1"
    by (simp add: WeightedGraph_addEdge_def Let_def)
  have r: "\<forall>e\<in>set es. fst e < length ?adj1 \<and> snd e < length ?adj1"
    using "2.prems" by simp
  have l: "Suc i + length es \<le> length weights" using "2.prems" by simp
  from "2.IH"[OF ni s r l] s ni show ?case by simp
qed

lemma Digraph_addEdge_arcs:
  assumes "Digraph_addEdge g a b = Inr g1"
  shows "mset (Digraph_getEdgeList g1) = mset (Digraph_getEdgeList g) + {#(a, b)#}"
proof -
  from assms have a: "a < length (dg_adj g)"
    and r: "dg_adj g1 = (dg_adj g)[a := al_add (dg_adj g ! a) b]"
    by (auto simp: Digraph_addEdge_def Let_def split: if_splits option.splits)
  have "mset (arcList_with iter_plain ((dg_adj g)[a := al_add (dg_adj g ! a) b]))
      = mset (arcList_with iter_plain (dg_adj g)) + {#(a, b)#}"
    by (rule arcList_with_add) (simp_all add: a iter_plain_add)
  then show ?thesis by (simp add: Digraph_getEdgeList_def r)
qed

lemma Digraph_addEdges_arcs:
  "Digraph_addEdges g es = Inr g1 \<Longrightarrow>
   mset (Digraph_getEdgeList g1) = mset (Digraph_getEdgeList g) + mset es"
proof (induction g es rule: Digraph_addEdges.induct)
  case (1 g)
  then show ?case by simp
next
  case (2 g u v es)
  from "2.prems" obtain g0 where s: "Digraph_addEdge g u v = Inr g0"
    and r: "Digraph_addEdges g0 es = Inr g1"
    by (auto split: sum.splits)
  from "2.IH"[OF s r] Digraph_addEdge_arcs[OF s] show ?case by simp
qed

lemma Digraph_addEdge_degrees:
  assumes ok: "degrees_ok g out inn" and a: "a < length (dg_adj g)" and b: "b < length (dg_adj g)"
  shows "\<exists>g1. Digraph_addEdge g a b = Inr g1 \<and> length (dg_adj g1) = length (dg_adj g)
     \<and> degrees_ok g1 (\<lambda>v. out v + (if v = a then 1 else 0)) (\<lambda>v. inn v + (if v = b then 1 else 0))"
proof -
  from ok obtain deg where d: "dg_inDegree g = Some deg" "length deg = length (dg_adj g)"
    and c: "\<forall>v < length (dg_adj g). al_size (dg_adj g ! v) = out v \<and> deg ! v = inn v"
    unfolding degrees_ok_def by blast
  let ?g1 = "\<lparr>dg_adj = (dg_adj g)[a := al_add (dg_adj g ! a) b],
             dg_inDegree = Some (deg[b := deg ! b + 1])\<rparr>"
  have s: "Digraph_addEdge g a b = Inr ?g1"
    using a b d by (simp add: Digraph_addEdge_def Let_def)
  have "degrees_ok ?g1 (\<lambda>v. out v + (if v = a then 1 else 0)) (\<lambda>v. inn v + (if v = b then 1 else 0))"
    unfolding degrees_ok_def using d c a b
    by (auto simp: nth_list_update al_add_def)
  with s show ?thesis by simp
qed

lemma Digraph_addEdges_degrees:
  "degrees_ok g out inn \<Longrightarrow> \<forall>e\<in>set es. fst e < length (dg_adj g) \<and> snd e < length (dg_adj g) \<Longrightarrow>
   \<exists>g1. Digraph_addEdges g es = Inr g1 \<and> length (dg_adj g1) = length (dg_adj g)
     \<and> degrees_ok g1 (\<lambda>v. out v + length (filter (\<lambda>e. fst e = v) es))
                      (\<lambda>v. inn v + length (filter (\<lambda>e. snd e = v) es))"
proof (induction g es arbitrary: out inn rule: Digraph_addEdges.induct)
  case (1 g)
  then show ?case by simp
next
  case (2 g u v es)
  from "2.prems" have u: "u < length (dg_adj g)" and v: "v < length (dg_adj g)" by simp_all
  from Digraph_addEdge_degrees[OF "2.prems"(1) u v] obtain g0 where
    s: "Digraph_addEdge g u v = Inr g0" and l: "length (dg_adj g0) = length (dg_adj g)" and
    ok: "degrees_ok g0 (\<lambda>x. out x + (if x = u then 1 else 0)) (\<lambda>x. inn x + (if x = v then 1 else 0))"
    by blast
  have r: "\<forall>e\<in>set es. fst e < length (dg_adj g0) \<and> snd e < length (dg_adj g0)"
    using "2.prems"(2) l by simp
  from "2.IH"[OF s ok r] obtain g1 where
    s1: "Digraph_addEdges g0 es = Inr g1" and l1: "length (dg_adj g1) = length (dg_adj g0)" and
    ok1: "degrees_ok g1
            (\<lambda>x. out x + (if x = u then 1 else 0) + length (filter (\<lambda>e. fst e = x) es))
            (\<lambda>x. inn x + (if x = v then 1 else 0) + length (filter (\<lambda>e. snd e = x) es))"
    by blast
  have e1: "(\<lambda>x. out x + (if x = u then 1 else 0) + length (filter (\<lambda>e. fst e = x) es))
          = (\<lambda>x. out x + length (filter (\<lambda>e. fst e = x) ((u, v) # es)))"
    by auto
  have e2: "(\<lambda>x. inn x + (if x = v then 1 else 0) + length (filter (\<lambda>e. snd e = x) es))
          = (\<lambda>x. inn x + length (filter (\<lambda>e. snd e = x) ((u, v) # es)))"
    by auto
  from s s1 l l1 ok1 show ?case unfolding e1 e2 by simp
qed



lemma WeightedDigraph_addEdge_arcs:
  assumes "WeightedDigraph_addEdge g a b w = Inr g1"
  shows "mset (WeightedDigraph_getEdgeList g1) = mset (WeightedDigraph_getEdgeList g) + {#(a, b)#}"
    and "mset (WeightedDigraph_getEdgeList_withWeights g1)
       = mset (WeightedDigraph_getEdgeList_withWeights g) + {#((a, b), w)#}"
    and "dg_inDegree g1 = dg_inDegree g"
    and "length (dg_adj g1) = length (dg_adj g)"
proof -
  from assms have a: "a < length (dg_adj g)"
    and r: "g1 = g\<lparr>dg_adj := (dg_adj g)[a := al_add (dg_adj g ! a) (b, w)]\<rparr>"
    by (auto simp: WeightedDigraph_addEdge_def split: if_splits)
  have "mset (arcList_with iter_targets ((dg_adj g)[a := al_add (dg_adj g ! a) (b, w)]))
      = mset (arcList_with iter_targets (dg_adj g)) + {#(a, b)#}"
    by (rule arcList_with_add) (simp_all add: a iter_targets_add)
  then show "mset (WeightedDigraph_getEdgeList g1) = mset (WeightedDigraph_getEdgeList g) + {#(a, b)#}"
    by (simp add: WeightedDigraph_getEdgeList_def r)
  show "mset (WeightedDigraph_getEdgeList_withWeights g1)
       = mset (WeightedDigraph_getEdgeList_withWeights g) + {#((a, b), w)#}"
    unfolding WeightedDigraph_getEdgeList_withWeights_def r
    by (simp, subst mset_concat_enumerate_append[OF a, where zs = "[((a, b), w)]"])
       (simp_all add: iter_weighted_add)
  show "dg_inDegree g1 = dg_inDegree g" by (simp add: r)
  show "length (dg_adj g1) = length (dg_adj g)" by (simp add: r)
qed

lemma WeightedDigraph_addEdges_arcs:
  "WeightedDigraph_addEdges g weights i es = Inr g1 \<Longrightarrow>
   mset (WeightedDigraph_getEdgeList g1) = mset (WeightedDigraph_getEdgeList g) + mset es
   \<and> mset (WeightedDigraph_getEdgeList_withWeights g1)
     = mset (WeightedDigraph_getEdgeList_withWeights g) + mset (zip es (drop i weights))
   \<and> dg_inDegree g1 = dg_inDegree g \<and> length (dg_adj g1) = length (dg_adj g)"
proof (induction g weights i es rule: WeightedDigraph_addEdges.induct)
  case (1 g weights i)
  then show ?case by simp
next
  case (2 g weights i u v es)
  from "2.prems" have i: "i < length weights" by (auto split: if_splits)
  with "2.prems" obtain g0 where s: "WeightedDigraph_addEdge g u v (weights ! i) = Inr g0"
    and r: "WeightedDigraph_addEdges g0 weights (Suc i) es = Inr g1"
    by (auto split: sum.splits if_splits)
  have d: "drop i weights = weights ! i # drop (Suc i) weights"
    using i by (simp add: Cons_nth_drop_Suc)
  from i have ni: "\<not> length weights \<le> i" by simp
  from "2.IH"[OF ni s r] WeightedDigraph_addEdge_arcs[OF s] show ?case
    by (simp add: d)
qed

lemma WeightedDigraph_addEdges_ok:
  "\<forall>e\<in>set es. fst e < length (dg_adj g) \<Longrightarrow> i + length es \<le> length weights \<Longrightarrow>
   \<exists>g1. WeightedDigraph_addEdges g weights i es = Inr g1"
proof (induction g weights i es rule: WeightedDigraph_addEdges.induct)
  case (1 g weights i)
  then show ?case by simp
next
  case (2 g weights i u v es)
  let ?g0 = "g\<lparr>dg_adj := (dg_adj g)[u := al_add (dg_adj g ! u) (v, weights ! i)]\<rparr>"
  from "2.prems" have ni: "\<not> length weights \<le> i" by simp
  from "2.prems" have s: "WeightedDigraph_addEdge g u v (weights ! i) = Inr ?g0"
    by (simp add: WeightedDigraph_addEdge_def)
  have r: "\<forall>e\<in>set es. fst e < length (dg_adj ?g0)" using "2.prems" by simp
  have l: "Suc i + length es \<le> length weights" using "2.prems" by simp
  from "2.IH"[OF ni s r l] s ni show ?case by simp
qed


lemma Digraph_init_degrees:
  assumes "\<forall>e\<in>set edges. fst e < n \<and> snd e < n"
  shows "\<exists>g. Digraph_init n edges = Inr g \<and> length (dg_adj g) = n
     \<and> (\<forall>v<n. outDegree g v = Inr (length (filter (\<lambda>e. fst e = v) edges))
             \<and> inDegree g v = Inr (length (filter (\<lambda>e. snd e = v) edges))
             \<and> Digraph_degree g v
                = Inr (length (filter (\<lambda>e. fst e = v) edges) + length (filter (\<lambda>e. snd e = v) edges)))"
proof -
  let ?g0 = "\<lparr>dg_adj = replicate n (AdjacencyList_init :: nat adjacency_list),
             dg_inDegree = Some (replicate n 0)\<rparr>"
  have ok0: "degrees_ok ?g0 (\<lambda>v. 0) (\<lambda>v. 0)"
    by (simp add: degrees_ok_def AdjacencyList_init_def)
  have r: "\<forall>e\<in>set edges. fst e < length (dg_adj ?g0) \<and> snd e < length (dg_adj ?g0)"
    using assms by simp
  from Digraph_addEdges_degrees[OF ok0 r] obtain g where
    s: "Digraph_addEdges ?g0 edges = Inr g" and l: "length (dg_adj g) = n" and
    ok: "degrees_ok g (\<lambda>v. 0 + length (filter (\<lambda>e. fst e = v) edges))
                      (\<lambda>v. 0 + length (filter (\<lambda>e. snd e = v) edges))"
    by auto
  from ok l have "\<forall>v<n. outDegree g v = Inr (length (filter (\<lambda>e. fst e = v) edges))
             \<and> inDegree g v = Inr (length (filter (\<lambda>e. snd e = v) edges))
             \<and> Digraph_degree g v
                = Inr (length (filter (\<lambda>e. fst e = v) edges) + length (filter (\<lambda>e. snd e = v) edges))"
    by (auto simp: degrees_ok_def outDegree_def inDegree_def Digraph_degree_def Graph_degree_def)
  with s l show ?thesis by (simp add: Digraph_init_def)
qed

lemma WeightedDigraph_init_inDegree_unset:
  assumes "WeightedDigraph_init n edges weights = Inr g"
  shows "inDegree g v = Inl AttributeError"
    and "v < n \<Longrightarrow> WeightedDigraph_degree g v = Inl AttributeError"
proof -
  from WeightedDigraph_addEdges_arcs[OF assms[unfolded WeightedDigraph_init_def]]
  have d: "dg_inDegree g = None" and l: "length (dg_adj g) = n" by simp_all
  from d show "inDegree g v = Inl AttributeError" by (simp add: inDegree_def)
  with l show "v < n \<Longrightarrow> WeightedDigraph_degree g v = Inl AttributeError"
    by (simp add: WeightedDigraph_degree_def Digraph_degree_def outDegree_def Graph_degree_def)
qed

text \<open>
  Claim C2 fails on \<open>WeightedDigraph\<close>: its constructor never assigns \<open>_inDegree\<close> and
  its \<open>addEdge\<close> never counts. On the graph with the one arc \<open>(0,1)\<close> of weight 5,
  \<open>inDegree 1\<close> and \<open>degree 1\<close> raise \<open>AttributeError\<close>, where the claim has 1 for both.
\<close>

theorem WeightedDigraph_inDegree_raises:
  "WeightedDigraph_init 2 [(0, 1)] [5 :: int]
     = Inr \<lparr>dg_adj = [\<lparr>al_items = [(1, 5)], al_size = 1\<rparr>, \<lparr>al_items = [], al_size = 0\<rparr>],
            dg_inDegree = None\<rparr>
   \<and> inDegree \<lparr>dg_adj = [\<lparr>al_items = [(1, 5 :: int)], al_size = 1\<rparr>, \<lparr>al_items = [], al_size = 0\<rparr>],
                dg_inDegree = None\<rparr> 1 = Inl AttributeError
   \<and> WeightedDigraph_degree
        \<lparr>dg_adj = [\<lparr>al_items = [(1, 5 :: int)], al_size = 1\<rparr>, \<lparr>al_items = [], al_size = 0\<rparr>],
         dg_inDegree = None\<rparr> 1 = Inl AttributeError"
  by code_simp

text \<open>
  Claim C9 as stated fails on a self-loop: after \<open>addEdge 0 0\<close> on one vertex the
  edge list is empty, the added edge is not reported.
\<close>

theorem getEdgeList_drops_self_loop:
  "Graph_init 1 [(0, 0)] = Inr [\<lparr>al_items = [0, 0], al_size = 2\<rparr>]
   \<and> Graph_getEdgeList [\<lparr>al_items = [0, 0], al_size = 2\<rparr>] = []"
  by code_simp

text \<open>
  Claim C9, amended. For edges with endpoints in range (and a weight for each), the
  constructors return, and: the edge list of \<open>Graph\<close> and of \<open>WeightedGraph\<close>, with or
  without weights, holds every added edge with two different endpoints exactly once,
  smaller endpoint first, and no self-loop; the edge list of \<open>Digraph\<close> and of
  \<open>WeightedDigraph\<close> holds every added arc exactly once.
\<close>

theorem getEdgeList_reports_once:
  assumes rng: "\<forall>e\<in>set edges. fst e < n \<and> snd e < n" and len: "length edges \<le> length weights"
  shows "(\<exists>adj. Graph_init n edges = Inr adj
            \<and> mset (Graph_getEdgeList adj) = mset (map unordered (filter proper edges)))
       \<and> (\<exists>adj. WeightedGraph_init n edges weights = Inr adj
            \<and> mset (WeightedGraph_getEdgeList adj) = mset (map unordered (filter proper edges))
            \<and> mset (WeightedGraph_getEdgeList_withWeights adj)
              = mset (map unordered_w (filter proper_w (zip edges weights))))
       \<and> (\<exists>g. Digraph_init n edges = Inr g \<and> mset (Digraph_getEdgeList g) = mset edges)
       \<and> (\<exists>g. WeightedDigraph_init n edges weights = Inr g
            \<and> mset (WeightedDigraph_getEdgeList g) = mset edges
            \<and> mset (WeightedDigraph_getEdgeList_withWeights g) = mset (zip edges weights))"
proof (intro conjI)
  from Graph_addEdges_ok[of edges "replicate n AdjacencyList_init"] rng
  obtain adj where "Graph_init n edges = Inr adj" by (auto simp: Graph_init_def)
  with Graph_init_edges[OF this]
  show "\<exists>adj. Graph_init n edges = Inr adj
            \<and> mset (Graph_getEdgeList adj) = mset (map unordered (filter proper edges))"
    by blast
next
  from WeightedGraph_addEdges_ok[of edges "replicate n AdjacencyList_init" 0 weights] rng len
  obtain adj where i: "WeightedGraph_init n edges weights = Inr adj"
    by (auto simp: WeightedGraph_init_def)
  from WeightedGraph_init_edges(2,3)[OF i] i
  show "\<exists>adj. WeightedGraph_init n edges weights = Inr adj
            \<and> mset (WeightedGraph_getEdgeList adj) = mset (map unordered (filter proper edges))
            \<and> mset (WeightedGraph_getEdgeList_withWeights adj)
              = mset (map unordered_w (filter proper_w (zip edges weights)))"
    by blast
next
  from Digraph_init_degrees[OF rng] obtain g where i: "Digraph_init n edges = Inr g" by blast
  have "Digraph_getEdgeList \<lparr>dg_adj = replicate n AdjacencyList_init,
                             dg_inDegree = Some (replicate n 0)\<rparr> = []"
    by (simp add: Digraph_getEdgeList_def arcList_with_init iter_plain_init)
  with Digraph_addEdges_arcs[OF i[unfolded Digraph_init_def]] i
  show "\<exists>g. Digraph_init n edges = Inr g \<and> mset (Digraph_getEdgeList g) = mset edges"
    by simp
next
  let ?g0 = "\<lparr>dg_adj = replicate n (AdjacencyList_init :: (nat \<times> 'a) adjacency_list),
             dg_inDegree = None\<rparr>"
  from WeightedDigraph_addEdges_ok[of edges ?g0 0 weights] rng len
  obtain g where i: "WeightedDigraph_init n edges weights = Inr g"
    by (auto simp: WeightedDigraph_init_def)
  have e1: "WeightedDigraph_getEdgeList ?g0 = []"
    by (simp add: WeightedDigraph_getEdgeList_def arcList_with_init iter_targets_init)
  have e2: "WeightedDigraph_getEdgeList_withWeights ?g0 = []"
    unfolding WeightedDigraph_getEdgeList_withWeights_def
    by (simp only: digraph.select_convs, rule concat_enumerate_empty) (simp add: iter_weighted_init)
  from WeightedDigraph_addEdges_arcs[OF i[unfolded WeightedDigraph_init_def]] e1 e2 i
  show "\<exists>g. WeightedDigraph_init n edges weights = Inr g
            \<and> mset (WeightedDigraph_getEdgeList g) = mset edges
            \<and> mset (WeightedDigraph_getEdgeList_withWeights g) = mset (zip edges weights)"
    by simp
qed


text \<open>
  Claim C9, witness of the amended statement: three vertices, the edges \<open>(0,1)\<close>,
  \<open>(2,1)\<close> and the self-loop \<open>(1,1)\<close>, with weights 5, 6, 7.
\<close>

theorem getEdgeList_reports_once_witness:
  "(\<exists>adj. Graph_init 3 [(0, 1), (2, 1), (1, 1)] = Inr adj
       \<and> mset (Graph_getEdgeList adj) = {#(0, 1), (1, 2)#})
   \<and> (\<exists>adj. WeightedGraph_init 3 [(0, 1), (2, 1), (1, 1)] [5, 6, 7 :: int] = Inr adj
       \<and> mset (WeightedGraph_getEdgeList adj) = {#(0, 1), (1, 2)#}
       \<and> mset (WeightedGraph_getEdgeList_withWeights adj) = {#((0, 1), 5), ((1, 2), 6)#})
   \<and> (\<exists>g. Digraph_init 3 [(0, 1), (2, 1), (1, 1)] = Inr g
       \<and> mset (Digraph_getEdgeList g) = {#(0, 1), (2, 1), (1, 1)#})
   \<and> (\<exists>g. WeightedDigraph_init 3 [(0, 1), (2, 1), (1, 1)] [5, 6, 7 :: int] = Inr g
       \<and> mset (WeightedDigraph_getEdgeList g) = {#(0, 1), (2, 1), (1, 1)#}
       \<and> mset (WeightedDigraph_getEdgeList_withWeights g)
         = {#((0, 1), 5), ((2, 1), 6), ((1, 1), 7)#})"
proof -
  have rng: "\<forall>e\<in>set [(0, 1), (2, 1), (1, 1)]. fst e < (3 :: nat) \<and> snd e < (3 :: nat)" by simp
  have len: "length [(0 :: nat, 1 :: nat), (2, 1), (1, 1)] \<le> length [5, 6, 7 :: int]" by simp
  have e1: "mset (map unordered (filter proper [(0, 1), (2, 1), (1, 1)])) = {#(0, 1), (1, 2)#}"
    by (simp add: unordered_def proper_def)
  have e2: "mset (map unordered_w (filter proper_w (zip [(0, 1), (2, 1), (1, 1)] [5, 6, 7 :: int])))
          = {#((0, 1), 5), ((1, 2), 6)#}"
    by (simp add: unordered_w_def proper_w_def unordered_def proper_def)
  have e3: "mset [(0 :: nat, 1 :: nat), (2, 1), (1, 1)] = {#(0, 1), (2, 1), (1, 1)#}"
    by (simp add: add_mset_commute)
  have e4: "mset (zip [(0 :: nat, 1 :: nat), (2, 1), (1, 1)] [5, 6, 7 :: int])
          = {#((0, 1), 5), ((2, 1), 6), ((1, 1), 7)#}"
    by (simp add: add_mset_commute)
  show ?thesis
    using getEdgeList_reports_once[OF rng len] unfolding e1 e2 e3 e4 .
qed

end
